theory Spec2Isabelle
  imports Main
begin

section \<open>Data model of debt_cleaning_pipeline.py\<close>

text \<open>
  Python strings are sequences of Unicode code points; they are modelled as lists of
  code points (natural numbers), so that the two regular expressions of the cell
  normalisers can be written as character classes over code points.
\<close>

type_synonym ustr = "nat list"

text \<open>
  A cell value as read by the spreadsheet library with \<open>data_only=True\<close>: absent, a
  number or a text.
\<close>

datatype pyval = PNone | PNum int | PStr ustr

text \<open>
  A cell carries a value, the flag \<open>has_style\<close> and the style names of the four sides
  of its border (\<open>None\<close> when the side has no style).
\<close>

record border_t =
  left_style :: "string option"
  right_style :: "string option"
  top_style :: "string option"
  bottom_style :: "string option"

record cell =
  cvalue :: pyval
  has_style :: bool
  border :: border_t

text \<open>A merged range of a worksheet: its bounding rows and columns (1-based, inclusive).\<close>

record merged_range =
  min_row :: nat
  max_row :: nat
  min_col :: nat
  max_col :: nat

text \<open>
  A worksheet: the dimensions reported by the library (\<open>sheet.max_row\<close>,
  \<open>sheet.max_column\<close>), the cell at a row and a column (\<open>sheet.cell(row, column)\<close>,
  total: the library hands out an empty cell where none is stored), and the merged
  ranges in the order in which \<open>sheet.merged_cells.ranges\<close> iterates. A sheet is a
  value: the functions below read sheets and never change them, and the dimensions are
  those the sheet has when it is read.
\<close>

record sheet =
  sh_max_row :: nat
  sh_max_column :: nat
  cell_at :: "nat \<Rightarrow> nat \<Rightarrow> cell"
  merged_cells :: "merged_range list"

section \<open>Layout resolver\<close>

text \<open>
  The test of the inner loop of \<open>get_logical_starts_for_row\<close>: the merged range covers
  the row and the column.
\<close>

definition covers :: "merged_range \<Rightarrow> nat \<Rightarrow> nat \<Rightarrow> bool" where
  "covers m row_num col \<longleftrightarrow>
     min_row m \<le> row_num \<and> row_num \<le> max_row m \<and> min_col m \<le> col \<and> col \<le> max_col m"

text \<open>
  The \<open>while col <= sheet.max_column\<close> loop of \<open>get_logical_starts_for_row\<close>, from
  the column \<open>col\<close> on: the column is appended, and the first merged range (in
  iteration order) covering it moves the scan to the column after the range; without
  such a range the scan moves one column to the right.
\<close>

function logical_starts_from :: "sheet \<Rightarrow> nat \<Rightarrow> nat \<Rightarrow> nat list" where
  "logical_starts_from sh row_num col =
     (if col \<le> sh_max_column sh then
        col # (case find (\<lambda>m. covers m row_num col) (merged_cells sh) of
                 Some m \<Rightarrow> logical_starts_from sh row_num (max_col m + 1)
               | None \<Rightarrow> logical_starts_from sh row_num (col + 1))
      else [])"
  by pat_completeness auto
termination
proof (relation "measure (\<lambda>(sh, row_num, col). sh_max_column sh + 1 - col)")
  show "wf (measure (\<lambda>(sh, row_num, col). sh_max_column sh + 1 - col))" by simp
next
  fix sh :: sheet and row_num col :: nat and m
  assume le: "col \<le> sh_max_column sh"
    and f: "find (\<lambda>m. covers m row_num col) (merged_cells sh) = Some m"
  from f have "covers m row_num col" by (auto simp: find_Some_iff)
  then have "col \<le> max_col m" by (simp add: covers_def)
  with le show "((sh, row_num, max_col m + 1), (sh, row_num, col))
      \<in> measure (\<lambda>(sh, row_num, col). sh_max_column sh + 1 - col)" by simp
next
  fix sh :: sheet and row_num col :: nat
  assume "col \<le> sh_max_column sh"
  then show "((sh, row_num, col + 1), (sh, row_num, col))
      \<in> measure (\<lambda>(sh, row_num, col). sh_max_column sh + 1 - col)" by simp
qed

declare logical_starts_from.simps [simp del]

text \<open>
  \<open>get_logical_starts_for_row\<close>: the scan starts at column 1. The per-sheet cache of
  the source stores the list computed for a row and returns it on later calls; the
  sheets are not changed between the calls, so the cached list is the computed one.
\<close>

definition get_logical_starts_for_row :: "sheet \<Rightarrow> nat \<Rightarrow> nat list" where
  "get_logical_starts_for_row sh row_num = logical_starts_from sh row_num 1"

text \<open>
  \<open>get_absolute_col_from_logical_index_for_row\<close>: the entry at the 1-based logical
  index, \<open>None\<close> outside the list.
\<close>

definition get_absolute_col_from_logical_index_for_row :: "sheet \<Rightarrow> nat \<Rightarrow> nat \<Rightarrow> nat option" where
  "get_absolute_col_from_logical_index_for_row sh row_num logical_index =
     (let logical_starts = get_logical_starts_for_row sh row_num
      in if 1 \<le> logical_index \<and> logical_index \<le> length logical_starts
         then Some (logical_starts ! (logical_index - 1)) else None)"


subsection \<open>Predicates used to state the layout properties\<close>

text \<open>The merged range covers the row.\<close>

definition covers_row :: "merged_range \<Rightarrow> nat \<Rightarrow> bool" where
  "covers_row m row_num \<longleftrightarrow> min_row m \<le> row_num \<and> row_num \<le> max_row m"

text \<open>
  The column lies inside a merged range that covers the row and started at an earlier
  column.
\<close>

definition inside_earlier_merge :: "sheet \<Rightarrow> nat \<Rightarrow> nat \<Rightarrow> bool" where
  "inside_earlier_merge sh row_num col \<longleftrightarrow>
     list_ex (\<lambda>m. covers_row m row_num \<and> min_col m < col \<and> col \<le> max_col m) (merged_cells sh)"

text \<open>
  The merged ranges that cover the row start at column 1 or later, and two of them that
  share a column have the same column span: the ranges of a spreadsheet do not overlap.
\<close>

definition row_merges_disjoint :: "sheet \<Rightarrow> nat \<Rightarrow> bool" where
  "row_merges_disjoint sh row_num \<longleftrightarrow>
     list_all (\<lambda>m. covers_row m row_num \<longrightarrow> 1 \<le> min_col m \<and>
        list_all (\<lambda>m'. covers_row m' row_num \<and> max (min_col m) (min_col m') \<le> min (max_col m) (max_col m')
            \<longrightarrow> min_col m' = min_col m \<and> max_col m' = max_col m) (merged_cells sh)) (merged_cells sh)"

text \<open>Every merged range covering the row spans the columns \<open>lo\<close> to \<open>hi\<close>, and there is one.\<close>

definition row_merges_span :: "sheet \<Rightarrow> nat \<Rightarrow> nat \<Rightarrow> nat \<Rightarrow> bool" where
  "row_merges_span sh row_num lo hi \<longleftrightarrow>
     list_all (\<lambda>m. covers_row m row_num \<longrightarrow> min_col m = lo \<and> max_col m = hi) (merged_cells sh) \<and>
     list_ex (\<lambda>m. covers_row m row_num) (merged_cells sh)"

text \<open>
  The logical starts as the general rule words them: the columns of the row, from 1 to
  the sheet's last column in ascending order, that do not lie inside a merged range
  covering the row that started at an earlier column.
\<close>

definition claimed_logical_starts :: "sheet \<Rightarrow> nat \<Rightarrow> nat list" where
  "claimed_logical_starts sh row_num =
     filter (\<lambda>col. \<not> inside_earlier_merge sh row_num col) [1..<Suc (sh_max_column sh)]"

text \<open>A cell with no value and no style, and a sheet whose row 1 merges columns 2 and 3.\<close>

definition empty_cell :: cell where
  "empty_cell = \<lparr>cvalue = PNone, has_style = False, border = \<lparr>left_style = None, right_style = None, top_style = None, bottom_style = None\<rparr>\<rparr>"

definition example_merged_sheet :: sheet where
  "example_merged_sheet = \<lparr>sh_max_row = 2, sh_max_column = 5, cell_at = (\<lambda>r c. empty_cell),
     merged_cells = [\<lparr>min_row = 1, max_row = 1, min_col = 2, max_col = 3\<rparr>]\<rparr>"

text \<open>
  A sheet of seven columns whose row 1 has two merged ranges that overlap: the columns 2
  to 4 (\<open>B1:D1\<close>) and the columns 3 to 6 (\<open>C1:F1\<close>).
\<close>

definition example_overlapping_sheet :: sheet where
  "example_overlapping_sheet = \<lparr>sh_max_row = 1, sh_max_column = 7, cell_at = (\<lambda>r c. empty_cell),
     merged_cells = [\<lparr>min_row = 1, max_row = 1, min_col = 2, max_col = 4\<rparr>,
                     \<lparr>min_row = 1, max_row = 1, min_col = 3, max_col = 6\<rparr>]\<rparr>"

section \<open>Cell normaliser\<close>

text \<open>
  The decimal digits of a natural number, as code points, and \<open>str(cell_value)\<close>: a text
  is itself, an integer is its decimal representation (with a minus sign when negative).
\<close>

fun digits_of :: "nat \<Rightarrow> ustr" where
  "digits_of n = (if n < 10 then [48 + n] else digits_of (n div 10) @ [48 + n mod 10])"

declare digits_of.simps [simp del]

definition py_str :: "pyval \<Rightarrow> ustr" where
  "py_str v = (case v of
       PNone \<Rightarrow> [78, 111, 110, 101]
     | PNum n \<Rightarrow> (if n < 0 then 45 # digits_of (nat (- n)) else digits_of (nat n))
     | PStr s \<Rightarrow> s)"

text \<open>
  The code points matched by \<open>\s\<close> in a Python 3 pattern over \<open>str\<close> (the Unicode
  whitespace characters).
\<close>

definition is_space :: "nat \<Rightarrow> bool" where
  "is_space c \<longleftrightarrow> c \<in> set [9, 10, 11, 12, 13, 28, 29, 30, 31, 32, 133, 160, 5760,
     8192, 8193, 8194, 8195, 8196, 8197, 8198, 8199, 8200, 8201, 8202,
     8232, 8233, 8239, 8287, 12288]"

text \<open>\<open>clean_cell\<close>: empty for an absent value, else the text without whitespace.\<close>

definition clean_cell :: "pyval \<Rightarrow> ustr" where
  "clean_cell cell_value =
     (if cell_value = PNone then [] else filter (\<lambda>c. \<not> is_space c) (py_str cell_value))"

text \<open>
  \<open>clean_for_matching\<close>: empty for an absent value, else the characters of the text in
  the range U+4E00 to U+9FA5, in their order.
\<close>

definition clean_for_matching :: "pyval \<Rightarrow> ustr" where
  "clean_for_matching cell_value =
     (if cell_value = PNone then []
      else filter (\<lambda>c. 19968 \<le> c \<and> c \<le> 40869) (py_str cell_value))"

text \<open>
  \<open>has_border\<close>: the cell has a style and one of the four sides of its border has a
  style name that is not empty.
\<close>

definition side_styled :: "string option \<Rightarrow> bool" where
  "side_styled s \<longleftrightarrow> (case s of None \<Rightarrow> False | Some n \<Rightarrow> n \<noteq> [])"

definition has_border :: "cell \<Rightarrow> bool" where
  "has_border c \<longleftrightarrow>
     (if \<not> has_style c then False
      else side_styled (left_style (border c)) \<or> side_styled (right_style (border c)) \<or>
           side_styled (top_style (border c)) \<or> side_styled (bottom_style (border c)))"

section \<open>Forward fill\<close>

text \<open>
  The inner loop of \<open>manual_ffill\<close> for the column \<open>c\<close>, over the rows from top to
  bottom, with the variable \<open>last_val\<close> (\<open>PNone\<close> is Python's \<open>None\<close>): a cell that is
  not \<open>None\<close> and not empty after cleaning becomes the last value; any other cell is
  overwritten with the last value when there is one.
\<close>

fun ffill_column :: "nat \<Rightarrow> pyval \<Rightarrow> pyval list list \<Rightarrow> pyval list list" where
  "ffill_column c last_val [] = []"
| "ffill_column c last_val (row # rows) =
     (if row ! c \<noteq> PNone \<and> clean_cell (row ! c) \<noteq> [] then row # ffill_column c (row ! c) rows
      else if last_val \<noteq> PNone then row[c := last_val] # ffill_column c last_val rows
      else row # ffill_column c last_val rows)"

text \<open>\<open>num_cols\<close>: the length of the longest row.\<close>

definition num_cols :: "pyval list list \<Rightarrow> nat" where
  "num_cols data = foldr (\<lambda>row n. max (length row) n) data 0"

text \<open>
  \<open>manual_ffill\<close>: the rows are copied and padded with \<open>None\<close> to the length of the
  longest one, then every column is filled from top to bottom.
\<close>

definition pad_rows :: "pyval list list \<Rightarrow> pyval list list" where
  "pad_rows data = map (\<lambda>row. row @ replicate (num_cols data - length row) PNone) data"

definition manual_ffill :: "pyval list list \<Rightarrow> pyval list list" where
  "manual_ffill data =
     (if data = [] then []
      else foldl (\<lambda>filled_data c. ffill_column c PNone filled_data) (pad_rows data)
             [0..<num_cols data])"

subsection \<open>Notions used to state forward fill\<close>

text \<open>A cell is blank when it is empty after whitespace stripping.\<close>

definition blank :: "pyval \<Rightarrow> bool" where
  "blank v \<longleftrightarrow> clean_cell v = []"

text \<open>
  The cell of the input grid at a 0-based row and column; a position beyond the end of a
  short row holds no value.
\<close>

definition grid_cell :: "pyval list list \<Rightarrow> nat \<Rightarrow> nat \<Rightarrow> pyval" where
  "grid_cell data r c = (if c < length (data ! r) then data ! r ! c else PNone)"

text \<open>
  The row \<open>k\<close> holds the nearest non-blank cell above the row \<open>r\<close> in the column \<open>c\<close>.
\<close>

definition nearest_above :: "pyval list list \<Rightarrow> nat \<Rightarrow> nat \<Rightarrow> nat \<Rightarrow> bool" where
  "nearest_above data r c k \<longleftrightarrow>
     k < r \<and> \<not> blank (grid_cell data k c) \<and> list_all (\<lambda>j. blank (grid_cell data j c)) [Suc k..<r]"

text \<open>No cell above the row \<open>r\<close> in the column \<open>c\<close> is non-blank.\<close>

definition all_blank_above :: "pyval list list \<Rightarrow> nat \<Rightarrow> nat \<Rightarrow> bool" where
  "all_blank_above data r c \<longleftrightarrow> list_all (\<lambda>j. blank (grid_cell data j c)) [0..<r]"

text \<open>
  The values that the inner loop leaves in one column, as a function of the values of
  the column from top to bottom.
\<close>

fun fill_list :: "pyval \<Rightarrow> pyval list \<Rightarrow> pyval list" where
  "fill_list last_val [] = []"
| "fill_list last_val (x # xs) =
     (if \<not> blank x then x # fill_list x xs
      else if last_val \<noteq> PNone then last_val # fill_list last_val xs
      else x # fill_list last_val xs)"

text \<open>
  A grid with a row shorter than the others, a cell holding only a space and two absent
  cells.
\<close>

definition example_grid :: "pyval list list" where
  "example_grid = [[PStr [65], PNone], [PStr [32], PStr [66]], [PNone]]"

section \<open>Configuration\<close>

text \<open>
  The field names of the configuration, as code points: \<open>COLS_TO_FIND_BY_HEADER\<close> (its
  keys and the headers they are found by are the same two texts), \<open>HEADERS_TO_FIND\<close>,
  \<open>DATA_COL_NAMES\<close>, \<open>SPECIAL_COL_NAME\<close>, \<open>EXTENDED_VAR_NAMES\<close>,
  \<open>ADDITIONAL_VAR_NAME\<close>, the three metadata keys and \<open>FINAL_COLUMN_ORDER\<close>.
\<close>

definition COLS_TO_FIND_BY_HEADER :: "(ustr \<times> ustr) list" where
  "COLS_TO_FIND_BY_HEADER =
     [([20538, 21048, 21517, 31216], [20538, 21048, 21517, 31216]),
      ([21457, 34892, 35268, 27169], [21457, 34892, 35268, 27169])]"

definition HEADERS_TO_FIND :: "ustr list" where
  "HEADERS_TO_FIND =
     [[39033, 30446, 21517, 31216], [39033, 30446, 21333, 20301], [20027, 31649, 37096, 38376]]"

definition DATA_COL_NAMES :: "ustr list" where
  "DATA_COL_NAMES =
     [[24635, 20540], [36130, 25919, 23433, 25490], [20538, 21048, 34701, 36164]]"

definition SPECIAL_COL_NAME :: ustr where
  "SPECIAL_COL_NAME = [39044, 26399, 24635, 25910, 30410]"

definition EXTENDED_VAR_NAMES :: "ustr list" where
  "EXTENDED_VAR_NAMES =
     [[39033, 30446, 31867, 22411],
      [19987, 39033, 20538, 21048, 20013, 29992, 20110, 35813, 39033, 30446, 30340, 37329, 39069],
      [20854, 20013, 65306, 29992, 20110, 31526, 21512, 26465, 20214, 30340, 37325, 22823,
       39033, 30446, 36164, 26412, 37329, 30340, 37329, 39069],
      [31616, 35201, 25551, 36848],
      [24314, 35774, 26399],
      [36816, 33829, 26399],
      [20538, 21048, 23384, 32493, 26399, 20869, 39033, 30446, 24635, 25237, 36164],
      [20854, 20013, 65306, 19981, 21547, 19987, 39033, 20538, 21048, 30340, 39033, 30446,
       36164, 26412, 37329],
      [19987, 39033, 20538, 21048, 34701, 36164],
      [20854, 20182, 20538, 21153, 34701, 36164]]"

definition ADDITIONAL_VAR_NAME :: ustr where
  "ADDITIONAL_VAR_NAME = [20538, 21048, 23384, 32493, 26399, 20869, 39033, 30446, 24635, 25910, 30410]"

definition KEY_YEAR :: ustr where
  "KEY_YEAR = [24180, 20221]"

definition KEY_REGION :: ustr where
  "KEY_REGION = [22320, 21306]"

definition KEY_SOURCE :: ustr where
  "KEY_SOURCE = [25968, 25454, 26469, 28304]"

definition FINAL_COLUMN_ORDER :: "ustr list" where
  "FINAL_COLUMN_ORDER =
     map fst COLS_TO_FIND_BY_HEADER @ HEADERS_TO_FIND @ DATA_COL_NAMES @ [SPECIAL_COL_NAME] @
     EXTENDED_VAR_NAMES @ [ADDITIONAL_VAR_NAME] @ [KEY_YEAR, KEY_REGION, KEY_SOURCE]"

text \<open>The label of the project name (the first of \<open>HEADERS_TO_FIND\<close>), and the key
  \<open>_occurrence_index\<close> that numbers the records of one name.\<close>

definition PROJECT_NAME :: ustr where
  "PROJECT_NAME = [39033, 30446, 21517, 31216]"

definition OCCURRENCE_KEY :: ustr where
  "OCCURRENCE_KEY = [95, 111, 99, 99, 117, 114, 114, 101, 110, 99, 101, 95, 105, 110, 100, 101, 120]"

text \<open>
  A Python dictionary from texts to cell values, and \<open>d.get(key)\<close>, which is \<open>None\<close> for a
  missing key.
\<close>

type_synonym pydict = "ustr \<rightharpoonup> pyval"

definition dict_get :: "pydict \<Rightarrow> ustr \<Rightarrow> pyval" where
  "dict_get d key = (case d key of None \<Rightarrow> PNone | Some v \<Rightarrow> v)"

section \<open>Anchor map builder\<close>

text \<open>
  An anchor location: the index of the sheet in the original sequence, the row, and the
  logical index of the value column.
\<close>

type_synonym anchor_location = "nat \<times> nat \<times> nat"

text \<open>
  The body of the row loop of \<open>build_anchor_map\<close>: the project name that the row
  anchors, if any. The row needs a first and a second logical column; its key cell must
  clean to the project-name label, and the cleaned value cell must not be empty.
\<close>

definition anchor_row :: "sheet \<Rightarrow> nat \<Rightarrow> ustr option" where
  "anchor_row sh r_idx =
     (case get_absolute_col_from_logical_index_for_row sh r_idx 1 of
        None \<Rightarrow> None
      | Some key_col \<Rightarrow>
          (case get_absolute_col_from_logical_index_for_row sh r_idx 2 of
             None \<Rightarrow> None
           | Some value_col \<Rightarrow>
               if clean_for_matching (cvalue (cell_at sh r_idx key_col)) = PROJECT_NAME then
                 (let project_name = clean_for_matching (cvalue (cell_at sh r_idx value_col))
                  in if project_name \<noteq> [] then Some project_name else None)
               else None))"

text \<open>
  \<open>anchor_map.setdefault(project_name, []).append(location)\<close>, and the lookup
  \<open>anchor_map.get(name, [])\<close>.
\<close>

type_synonym anchor_map = "ustr \<rightharpoonup> anchor_location list"

definition anchors_of :: "anchor_map \<Rightarrow> ustr \<Rightarrow> anchor_location list" where
  "anchors_of anchor_map name = (case anchor_map name of None \<Rightarrow> [] | Some locs \<Rightarrow> locs)"

definition add_anchor :: "ustr \<Rightarrow> anchor_location \<Rightarrow> anchor_map \<Rightarrow> anchor_map" where
  "add_anchor project_name location anchor_map =
     anchor_map(project_name \<mapsto> anchors_of anchor_map project_name @ [location])"

text \<open>The rows 1 to \<open>max_row\<close> of one sheet, at its index in the original sequence.\<close>

definition scan_sheet :: "nat \<Rightarrow> sheet \<Rightarrow> anchor_map \<Rightarrow> anchor_map" where
  "scan_sheet current_absolute_idx sh anchor_map =
     fold (\<lambda>r_idx am. case anchor_row sh r_idx of
                        None \<Rightarrow> am
                      | Some project_name \<Rightarrow> add_anchor project_name (current_absolute_idx, r_idx, 2) am)
       [1..<Suc (sh_max_row sh)] anchor_map"

text \<open>
  \<open>build_anchor_map\<close>: the sheets from \<open>start_sheet_idx\<close> on, in order, each at the
  index \<open>start_sheet_idx + sheet_idx_offset\<close>.
\<close>

definition build_anchor_map :: "sheet list \<Rightarrow> nat \<Rightarrow> anchor_map" where
  "build_anchor_map original_sheets start_sheet_idx =
     fold (\<lambda>(sheet_idx_offset, sh) am. scan_sheet (start_sheet_idx + sheet_idx_offset) sh am)
       (enumerate 0 (drop start_sheet_idx original_sheets)) Map.empty"

section \<open>Extended-field extractor\<close>

text \<open>
  The \<open>while not found and current_s_idx < len(original_sheets)\<close> loop of
  \<open>extract_vars_from_anchor\<close> for one field, from the cursor (sheet index, row). It
  returns the value found (\<open>None\<close> when the loop ends with \<open>found\<close> false) and the cursor
  after the loop. A row beyond the sheet's last row moves the cursor to row 1 of the next
  sheet; a row without the logical column, or whose cell there has no border, is passed.
\<close>

function walk_field :: "sheet list \<Rightarrow> nat \<Rightarrow> nat \<Rightarrow> nat \<Rightarrow> pyval option \<times> nat \<times> nat" where
  "walk_field original_sheets value_logical_index current_s_idx current_r =
     (if current_s_idx < length original_sheets then
        (if current_r > sh_max_row (original_sheets ! current_s_idx) then
           walk_field original_sheets value_logical_index (current_s_idx + 1) 1
         else
           (case get_absolute_col_from_logical_index_for_row
                   (original_sheets ! current_s_idx) current_r value_logical_index of
              None \<Rightarrow> walk_field original_sheets value_logical_index current_s_idx (current_r + 1)
            | Some absolute_col \<Rightarrow>
                if has_border (cell_at (original_sheets ! current_s_idx) current_r absolute_col)
                then (Some (cvalue (cell_at (original_sheets ! current_s_idx) current_r absolute_col)),
                      current_s_idx, current_r + 1)
                else walk_field original_sheets value_logical_index current_s_idx (current_r + 1)))
      else (None, current_s_idx, current_r))"
  by pat_completeness auto
termination
  by (relation "measures [\<lambda>(sheets, vli, s, r). length sheets - s,
                          \<lambda>(sheets, vli, s, r). Suc (sh_max_row (sheets ! s)) - r]") auto

declare walk_field.simps [simp del]

text \<open>
  The \<open>for var_name in EXTENDED_VAR_NAMES\<close> loop: every field is written to the
  dictionary, with \<open>None\<close> when it was not found, and the cursor is carried on.
\<close>

fun extract_fields ::
  "sheet list \<Rightarrow> nat \<Rightarrow> ustr list \<Rightarrow> nat \<Rightarrow> nat \<Rightarrow> pydict \<Rightarrow> pydict \<times> nat \<times> nat" where
  "extract_fields original_sheets vli [] current_s_idx current_r extracted_vars =
     (extracted_vars, current_s_idx, current_r)"
| "extract_fields original_sheets vli (var_name # names) current_s_idx current_r extracted_vars =
     (case walk_field original_sheets vli current_s_idx current_r of
        (found, s', r') \<Rightarrow>
          extract_fields original_sheets vli names s' r'
            (extracted_vars(var_name \<mapsto> (case found of None \<Rightarrow> PNone | Some v \<Rightarrow> v))))"

text \<open>
  The bounded search for the additional field: at most \<open>search_limit\<close> iterations, each
  passing one row or moving to the next sheet; a row whose key cell cleans to the
  additional label and whose value cell has a border gives the value.
\<close>

fun search_additional :: "nat \<Rightarrow> sheet list \<Rightarrow> nat \<Rightarrow> nat \<Rightarrow> pyval option" where
  "search_additional 0 original_sheets current_s_idx current_r = None"
| "search_additional (Suc n) original_sheets current_s_idx current_r =
     (if current_s_idx \<ge> length original_sheets then None
      else if current_r > sh_max_row (original_sheets ! current_s_idx)
        then search_additional n original_sheets (current_s_idx + 1) 1
      else
        (case get_absolute_col_from_logical_index_for_row (original_sheets ! current_s_idx) current_r 1 of
           None \<Rightarrow> search_additional n original_sheets current_s_idx (current_r + 1)
         | Some key_col \<Rightarrow>
             (case get_absolute_col_from_logical_index_for_row (original_sheets ! current_s_idx) current_r 2 of
                None \<Rightarrow> search_additional n original_sheets current_s_idx (current_r + 1)
              | Some value_col \<Rightarrow>
                  if clean_cell (cvalue (cell_at (original_sheets ! current_s_idx) current_r key_col))
                       = ADDITIONAL_VAR_NAME
                     \<and> has_border (cell_at (original_sheets ! current_s_idx) current_r value_col)
                  then Some (cvalue (cell_at (original_sheets ! current_s_idx) current_r value_col))
                  else search_additional n original_sheets current_s_idx (current_r + 1))))"

text \<open>
  \<open>extract_vars_from_anchor\<close>: the cursor starts one row below the anchor. (The early
  return for a false \<open>anchor_location\<close> cannot be taken: a triple is never false.)
\<close>

definition extract_vars_from_anchor :: "anchor_location \<Rightarrow> sheet list \<Rightarrow> pydict" where
  "extract_vars_from_anchor anchor_location original_sheets =
     (case anchor_location of (start_s_idx, start_r, value_logical_index) \<Rightarrow>
        (case extract_fields original_sheets value_logical_index EXTENDED_VAR_NAMES
                start_s_idx (start_r + 1) Map.empty of
           (extracted_vars, current_s_idx, current_r) \<Rightarrow>
             extracted_vars(ADDITIONAL_VAR_NAME \<mapsto>
               (case search_additional 10 original_sheets current_s_idx current_r of
                  None \<Rightarrow> PNone | Some v \<Rightarrow> v))))"

subsection \<open>Notions used to state the extraction properties\<close>

text \<open>
  The value cell of a row: the cell at the row's logical column \<open>vli\<close>, if the row has
  one, carries a border.
\<close>

definition value_cell_bordered :: "sheet list \<Rightarrow> nat \<Rightarrow> nat \<Rightarrow> nat \<Rightarrow> bool" where
  "value_cell_bordered sheets vli s r \<longleftrightarrow>
     (case get_absolute_col_from_logical_index_for_row (sheets ! s) r vli of
        None \<Rightarrow> False
      | Some c \<Rightarrow> has_border (cell_at (sheets ! s) r c))"

text \<open>
  The rows of the sheet \<open>s'\<close> that lie at or after the cursor \<open>(s, r)\<close>: from \<open>r\<close> on in
  the cursor's own sheet, all rows in a later sheet.
\<close>

definition rows_from :: "sheet list \<Rightarrow> nat \<Rightarrow> nat \<Rightarrow> nat \<Rightarrow> nat list" where
  "rows_from sheets s r s' =
     (if s' = s then [r..<Suc (sh_max_row (sheets ! s'))] else [1..<Suc (sh_max_row (sheets ! s'))])"

text \<open>Some row at or after the cursor, in the rest of the sheet sequence, has a bordered value cell.\<close>

definition bordered_cell_from :: "sheet list \<Rightarrow> nat \<Rightarrow> nat \<Rightarrow> nat \<Rightarrow> bool" where
  "bordered_cell_from sheets vli s r \<longleftrightarrow>
     list_ex (\<lambda>s'. list_ex (\<lambda>r'. value_cell_bordered sheets vli s' r') (rows_from sheets s r s'))
       [s..<length sheets]"

text \<open>The cursor after the walks of the first \<open>i\<close> fields, started at the cursor \<open>(s, r)\<close>.\<close>

fun field_cursor :: "sheet list \<Rightarrow> nat \<Rightarrow> nat \<Rightarrow> nat \<Rightarrow> nat \<Rightarrow> nat \<times> nat" where
  "field_cursor sheets vli 0 s r = (s, r)"
| "field_cursor sheets vli (Suc i) s r =
     (case walk_field sheets vli s r of (found, s', r') \<Rightarrow> field_cursor sheets vli i s' r')"

text \<open>No bordered value cell is left when the walk of the field number \<open>i\<close> starts.\<close>

definition exhausted_before :: "sheet list \<Rightarrow> anchor_location \<Rightarrow> nat \<Rightarrow> bool" where
  "exhausted_before sheets loc i \<longleftrightarrow>
     (case loc of (s0, r0, vli) \<Rightarrow>
        (case field_cursor sheets vli i s0 (r0 + 1) of
           (s, r) \<Rightarrow> \<not> bordered_cell_from sheets vli s r))"

text \<open>
  Example cells, and a one-sheet sequence: row 1 is an anchor row (label and a project
  name), row 2 holds one bordered value, row 3 holds an unbordered value.
\<close>

definition plain_cell :: "pyval \<Rightarrow> cell" where
  "plain_cell v = \<lparr>cvalue = v, has_style = False,
     border = \<lparr>left_style = None, right_style = None, top_style = None, bottom_style = None\<rparr>\<rparr>"

definition bordered_cell :: "pyval \<Rightarrow> cell" where
  "bordered_cell v = \<lparr>cvalue = v, has_style = True,
     border = \<lparr>left_style = Some ''thin'', right_style = Some ''thin'',
                top_style = Some ''thin'', bottom_style = Some ''thin''\<rparr>\<rparr>"

definition example_annotation_sheet :: sheet where
  "example_annotation_sheet = \<lparr>sh_max_row = 3, sh_max_column = 2,
     cell_at = (\<lambda>r c.
        if r = 1 \<and> c = 1 then plain_cell (PStr PROJECT_NAME)
        else if r = 1 \<and> c = 2 then plain_cell (PStr [30002, 30446])
        else if r = 2 \<and> c = 2 then bordered_cell (PNum 7)
        else if r = 3 \<and> c = 2 then plain_cell (PNum 9)
        else empty_cell),
     merged_cells = []\<rparr>"

section \<open>Base rows and enrichment\<close>

text \<open>
  The values of a sheet as \<open>sheet.iter_rows()\<close> yields them: the rows 1 to \<open>max_row\<close>,
  each with the columns 1 to \<open>max_column\<close>. The lists are indexed from 0, so the row \<open>i\<close>
  of the list is the row \<open>i + 1\<close> of the sheet.
\<close>

definition sheet_values :: "sheet \<Rightarrow> pyval list list" where
  "sheet_values sh =
     map (\<lambda>r. map (\<lambda>c. cvalue (cell_at sh r c)) [1..<Suc (sh_max_column sh)])
       [1..<Suc (sh_max_row sh)]"

text \<open>
  Locating the header: the first position, rows first (at most the first five), then
  columns from the left, where three consecutive cleaned cells are \<open>HEADERS_TO_FIND\<close>.
\<close>

definition header_at :: "pyval list list \<Rightarrow> nat \<Rightarrow> nat \<Rightarrow> bool" where
  "header_at data_filled r_idx c_idx \<longleftrightarrow>
     map (\<lambda>i. clean_cell (data_filled ! r_idx ! (c_idx + i))) [0..<length HEADERS_TO_FIND]
       = HEADERS_TO_FIND"

definition find_header :: "pyval list list \<Rightarrow> (nat \<times> nat) option" where
  "find_header data_filled =
     find (\<lambda>(r_idx, c_idx). header_at data_filled r_idx c_idx)
       (concat (map (\<lambda>r_idx. map (\<lambda>c_idx. (r_idx, c_idx))
                       [0..<length (data_filled ! r_idx) + 1 - length HEADERS_TO_FIND])
                  [0..<min 5 (length data_filled)]))"

text \<open>\<open>list.index\<close>: the first position of a value, \<open>None\<close> where Python raises \<open>ValueError\<close>.\<close>

fun index_of :: "'a list \<Rightarrow> 'a \<Rightarrow> nat option" where
  "index_of [] x = None"
| "index_of (y # ys) x = (if y = x then Some 0 else map_option Suc (index_of ys x))"

text \<open>
  \<open>found_cols_map\<close>: for every column of \<open>COLS_TO_FIND_BY_HEADER\<close> whose header occurs in
  the cleaned header row, the first position of the header.
\<close>

definition found_cols_map :: "pyval list \<Rightarrow> (ustr \<times> nat) list" where
  "found_cols_map header_row =
     concat (map (\<lambda>(final_name, header_to_find).
                    case index_of (map clean_cell header_row) header_to_find of
                      None \<Rightarrow> []
                    | Some col_index \<Rightarrow> [(final_name, col_index)])
               COLS_TO_FIND_BY_HEADER)"

text \<open>
  The special field of the row \<open>i\<close> (0-based): the columns are scanned from \<open>max_column\<close>
  down to 1, and the first cell that has a border and a value other than \<open>None\<close> gives
  the value; \<open>None\<close> when there is no such cell.
\<close>

definition expected_return :: "sheet \<Rightarrow> nat \<Rightarrow> pyval" where
  "expected_return sh i =
     (case find (\<lambda>c_idx. has_border (cell_at sh (i + 1) c_idx) \<and> cvalue (cell_at sh (i + 1) c_idx) \<noteq> PNone)
             (rev [1..<Suc (sh_max_column sh)]) of
        None \<Rightarrow> PNone
      | Some c_idx \<Rightarrow> cvalue (cell_at sh (i + 1) c_idx))"

text \<open>
  \<open>row_dict\<close> for the row \<open>i\<close>: the columns found by header, the three name columns from
  the filled data, the three data columns from the original data, the special field.
\<close>

definition row_dict ::
  "sheet \<Rightarrow> pyval list list \<Rightarrow> pyval list list \<Rightarrow> (ustr \<times> nat) list \<Rightarrow> nat \<Rightarrow> nat \<Rightarrow> pydict" where
  "row_dict sh data_original data_filled found_cols header_col_start_idx i =
     (let d1 = fold (\<lambda>(final_name, col_idx) d.
                  d(final_name \<mapsto> (if col_idx < length (data_filled ! i)
                                     then data_filled ! i ! col_idx else PNone)))
                found_cols Map.empty;
          d2 = fold (\<lambda>(offset, col_name) d.
                  d(col_name \<mapsto> data_filled ! i ! (header_col_start_idx + offset)))
                (enumerate 0 HEADERS_TO_FIND) d1;
          d3 = fold (\<lambda>(offset, col_name) d.
                  d(col_name \<mapsto>
                     (let col_idx = header_col_start_idx + length HEADERS_TO_FIND + offset
                      in if col_idx < length (data_original ! i)
                         then data_original ! i ! col_idx else PNone)))
                (enumerate 0 DATA_COL_NAMES) d2
      in d3(SPECIAL_COL_NAME \<mapsto> expected_return sh i))"

text \<open>
  The rows of the consolidated sheet that give a base record: the rows below the header
  whose cleaned name cell (in the filled data) is not empty; none when the header is not
  found.
\<close>

definition base_row_indices :: "sheet \<Rightarrow> nat list" where
  "base_row_indices sh =
     (let data_filled = manual_ffill (sheet_values sh)
      in case find_header data_filled of
           None \<Rightarrow> []
         | Some (header_row_idx, header_col_start_idx) \<Rightarrow>
             filter (\<lambda>i. clean_cell (data_filled ! i ! header_col_start_idx) \<noteq> [])
               [header_row_idx + 1..<sh_max_row sh])"

definition base_extracted_data :: "sheet \<Rightarrow> pydict list" where
  "base_extracted_data sh =
     (let data_original = sheet_values sh;
          data_filled = manual_ffill data_original
      in case find_header data_filled of
           None \<Rightarrow> []
         | Some (header_row_idx, header_col_start_idx) \<Rightarrow>
             map (row_dict sh data_original data_filled
                    (found_cols_map (data_filled ! header_row_idx)) header_col_start_idx)
               (base_row_indices sh))"

text \<open>
  Numbering the records of one name: \<open>name_counts\<close> counts the records seen so far under
  each cleaned project name (\<open>name_counts.get(name, 0)\<close> reads it), and a record with a
  non-empty cleaned name gets its count under the key \<open>_occurrence_index\<close>.
\<close>

definition counts_get :: "(ustr \<rightharpoonup> int) \<Rightarrow> ustr \<Rightarrow> int" where
  "counts_get name_counts name = (case name_counts name of None \<Rightarrow> 0 | Some n \<Rightarrow> n)"

fun number_records :: "(ustr \<rightharpoonup> int) \<Rightarrow> pydict list \<Rightarrow> pydict list" where
  "number_records name_counts [] = []"
| "number_records name_counts (record # records) =
     (let cleaned_name = clean_for_matching (dict_get record PROJECT_NAME)
      in if cleaned_name \<noteq> [] then
           (let current_count = counts_get name_counts cleaned_name + 1
            in record(OCCURRENCE_KEY \<mapsto> PNum current_count)
                 # number_records (name_counts(cleaned_name \<mapsto> current_count)) records)
         else record # number_records name_counts records)"

text \<open>\<open>{key: None for key in EXTENDED_VAR_NAMES}\<close> with the additional field set to \<open>None\<close>.\<close>

definition absent_vars :: pydict where
  "absent_vars = map_of (map (\<lambda>key. (key, PNone)) (EXTENDED_VAR_NAMES @ [ADDITIONAL_VAR_NAME]))"

text \<open>
  The anchor that the enrichment loop takes for a record: the entry of the name's anchor
  list at the record's occurrence index (\<open>-1\<close> when the record has none), if the index is
  between 1 and the length of the list.
\<close>

definition record_anchor :: "anchor_map \<Rightarrow> pydict \<Rightarrow> anchor_location option" where
  "record_anchor anchor_map record =
     (let cleaned_project_name = clean_for_matching (dict_get record PROJECT_NAME);
          occurrence_index = (case record OCCURRENCE_KEY of Some (PNum n) \<Rightarrow> n | _ \<Rightarrow> - 1);
          anchor_locations = anchors_of anchor_map cleaned_project_name
      in if 1 \<le> occurrence_index \<and> occurrence_index \<le> int (length anchor_locations)
         then Some (anchor_locations ! nat (occurrence_index - 1)) else None)"

text \<open>
  One pass of the enrichment loop: the extended fields are written into the record, the
  occurrence index is deleted, and the metadata is written.
\<close>

definition enrich_record :: "anchor_map \<Rightarrow> sheet list \<Rightarrow> pydict \<Rightarrow> pydict \<Rightarrow> pydict" where
  "enrich_record anchor_map original_sheets metadata record =
     (let extended_vars = (case record_anchor anchor_map record of
                             Some anchor_location \<Rightarrow> extract_vars_from_anchor anchor_location original_sheets
                           | None \<Rightarrow> absent_vars)
      in ((record ++ extended_vars)(OCCURRENCE_KEY := None)) ++ metadata)"

text \<open>
  \<open>extract_data_with_extended_vars\<close>, on the sheet of the consolidated workbook: no
  records when no base record was extracted; else the base records are numbered, the
  anchor map is built from the sheets after the last consolidated one, and every record
  is enriched.
\<close>

definition extract_data_with_extended_vars :: "sheet \<Rightarrow> sheet list \<Rightarrow> nat \<Rightarrow> pydict \<Rightarrow> pydict list" where
  "extract_data_with_extended_vars sh original_sheets last_sheet_idx metadata =
     (let base = base_extracted_data sh
      in if base = [] then []
         else map (enrich_record (build_anchor_map original_sheets (last_sheet_idx + 1))
                     original_sheets metadata)
                (number_records Map.empty base))"

subsection \<open>Notions used to state the pairing of records and anchors\<close>

text \<open>The strictly normalised project name of a record.\<close>

definition cleaned_name :: "pydict \<Rightarrow> ustr" where
  "cleaned_name d = clean_for_matching (dict_get d PROJECT_NAME)"

text \<open>
  The occurrence index of the record \<open>i\<close> (0-based) among the base records in row order:
  the number of records up to and including it that bear its name.
\<close>

definition occurrence_index :: "pydict list \<Rightarrow> nat \<Rightarrow> nat" where
  "occurrence_index base i =
     length (filter (\<lambda>d. cleaned_name d = cleaned_name (base ! i)) (take (Suc i) base))"

text \<open>The number of base records bearing a name.\<close>

definition records_named :: "pydict list \<Rightarrow> ustr \<Rightarrow> nat" where
  "records_named base name = length (filter (\<lambda>d. cleaned_name d = name) base)"

text \<open>
  The scan order: the sheets from \<open>start\<close> on in ascending order, the rows 1 to
  \<open>max_row\<close> of each in ascending order.
\<close>

definition scan_positions :: "sheet list \<Rightarrow> nat \<Rightarrow> (nat \<times> nat) list" where
  "scan_positions sheets start =
     concat (map (\<lambda>s. map (\<lambda>r. (s, r)) [1..<Suc (sh_max_row (sheets ! s))]) [start..<length sheets])"

text \<open>The anchor locations of a name, in scan order.\<close>

definition anchors_in_scan_order :: "sheet list \<Rightarrow> nat \<Rightarrow> ustr \<Rightarrow> anchor_location list" where
  "anchors_in_scan_order sheets start name =
     map (\<lambda>(s, r). (s, r, 2))
       (filter (\<lambda>(s, r). anchor_row (sheets ! s) r = Some name) (scan_positions sheets start))"

text \<open>
  Pairing by occurrence index: the record \<open>i\<close>, the \<open>k\<close>-th of its name, is paired with
  the \<open>k\<close>-th anchor location of that name in scan order, and with none when the name has
  fewer than \<open>k\<close> anchor locations.
\<close>

definition paired_anchor :: "pydict list \<Rightarrow> sheet list \<Rightarrow> nat \<Rightarrow> nat \<Rightarrow> anchor_location option" where
  "paired_anchor base sheets start i =
     (let locs = anchors_in_scan_order sheets start (cleaned_name (base ! i));
          k = occurrence_index base i
      in if k \<le> length locs then Some (locs ! (k - 1)) else None)"

subsection \<open>An example group\<close>

text \<open>
  A consolidated table with the header row and three data rows, the first two bearing
  the same project name; and a sheet of annotations with three anchor rows for that
  name, each followed by one bordered value.
\<close>

definition example_consolidated_sheet :: sheet where
  "example_consolidated_sheet = \<lparr>sh_max_row = 4, sh_max_column = 3,
     cell_at = (\<lambda>r c.
        if r = 1 \<and> c = 1 then bordered_cell (PStr [39033, 30446, 21517, 31216])
        else if r = 1 \<and> c = 2 then bordered_cell (PStr [39033, 30446, 21333, 20301])
        else if r = 1 \<and> c = 3 then bordered_cell (PStr [20027, 31649, 37096, 38376])
        else if (r = 2 \<or> r = 3) \<and> c = 1 then bordered_cell (PStr [30002])
        else if r = 4 \<and> c = 1 then bordered_cell (PStr [20057])
        else if 2 \<le> r \<and> r \<le> 4 \<and> c = 2 then bordered_cell (PStr [85])
        else if 2 \<le> r \<and> r \<le> 4 \<and> c = 3 then bordered_cell (PStr [68])
        else empty_cell),
     merged_cells = []\<rparr>"

definition example_three_anchors_sheet :: sheet where
  "example_three_anchors_sheet = \<lparr>sh_max_row = 6, sh_max_column = 2,
     cell_at = (\<lambda>r c.
        if (r = 1 \<or> r = 3 \<or> r = 5) \<and> c = 1 then plain_cell (PStr [39033, 30446, 21517, 31216])
        else if (r = 1 \<or> r = 3 \<or> r = 5) \<and> c = 2 then plain_cell (PStr [30002])
        else if (r = 2 \<or> r = 4 \<or> r = 6) \<and> c = 2 then bordered_cell (PNum (int r))
        else empty_cell),
     merged_cells = []\<rparr>"

definition example_original_sheets :: "sheet list" where
  "example_original_sheets = [example_consolidated_sheet, example_three_anchors_sheet]"

definition example_metadata :: pydict where
  "example_metadata = [KEY_YEAR \<mapsto> PStr [50, 48, 50, 48], KEY_REGION \<mapsto> PStr [65],
     KEY_SOURCE \<mapsto> PStr [82]]"

subsection \<open>Notions used to state the special field\<close>

text \<open>
  The cell of the row \<open>i\<close> (0-based) at the column \<open>c\<close> has a border and a value other
  than \<open>None\<close>.
\<close>

definition valued_bordered :: "sheet \<Rightarrow> nat \<Rightarrow> nat \<Rightarrow> bool" where
  "valued_bordered sh i c \<longleftrightarrow>
     has_border (cell_at sh (i + 1) c) \<and> cvalue (cell_at sh (i + 1) c) \<noteq> PNone"

text \<open>The column \<open>c\<close> holds the last such cell of the row: none lies to its right.\<close>

definition last_valued_bordered :: "sheet \<Rightarrow> nat \<Rightarrow> nat \<Rightarrow> bool" where
  "last_valued_bordered sh i c \<longleftrightarrow>
     1 \<le> c \<and> c \<le> sh_max_column sh \<and> valued_bordered sh i c \<and>
     list_all (\<lambda>c'. \<not> valued_bordered sh i c') [Suc c..<Suc (sh_max_column sh)]"

text \<open>The row has no such cell.\<close>

definition no_valued_bordered :: "sheet \<Rightarrow> nat \<Rightarrow> bool" where
  "no_valued_bordered sh i \<longleftrightarrow>
     list_all (\<lambda>c. \<not> valued_bordered sh i c) [1..<Suc (sh_max_column sh)]"

text \<open>
  The value of the last bordered cell of the row, whatever it holds: the first cell with
  a border met when the columns are scanned from \<open>max_column\<close> down to 1 (\<open>None\<close> when no
  cell of the row has a border).
\<close>

definition last_bordered_value :: "sheet \<Rightarrow> nat \<Rightarrow> pyval" where
  "last_bordered_value sh i =
     (case find (\<lambda>c_idx. has_border (cell_at sh (i + 1) c_idx)) (rev [1..<Suc (sh_max_column sh)]) of
        None \<Rightarrow> PNone
      | Some c_idx \<Rightarrow> cvalue (cell_at sh (i + 1) c_idx))"

text \<open>
  A consolidated table whose first data row ends with a bordered cell that holds no
  value, and whose second data row has no bordered cell.
\<close>

definition example_trailing_empty_sheet :: sheet where
  "example_trailing_empty_sheet = \<lparr>sh_max_row = 3, sh_max_column = 4,
     cell_at = (\<lambda>r c.
        if r = 1 \<and> c = 1 then bordered_cell (PStr [39033, 30446, 21517, 31216])
        else if r = 1 \<and> c = 2 then bordered_cell (PStr [39033, 30446, 21333, 20301])
        else if r = 1 \<and> c = 3 then bordered_cell (PStr [20027, 31649, 37096, 38376])
        else if r = 1 \<and> c = 4 then bordered_cell (PStr [39044, 26399, 24635, 25910, 30410])
        else if r = 2 \<and> c = 1 then bordered_cell (PStr [30002])
        else if r = 2 \<and> c = 2 then bordered_cell (PStr [85])
        else if r = 2 \<and> c = 3 then bordered_cell (PNum 5)
        else if r = 2 \<and> c = 4 then bordered_cell PNone
        else if r = 3 \<and> c = 1 then plain_cell (PStr [20057])
        else empty_cell),
     merged_cells = []\<rparr>"

section \<open>Border-region detector and table consolidator\<close>

text \<open>
  A cell range, in the order of \<open>range_boundaries\<close>: first column, first row, last
  column, last row. The source passes ranges as text (\<open>B2:F10\<close>), written with
  \<open>get_column_letter\<close> and read back with \<open>range_boundaries\<close>; the model keeps the four
  numbers that the text stands for.
\<close>

record cell_range =
  rg_min_col :: nat
  rg_min_row :: nat
  rg_max_col :: nat
  rg_max_row :: nat

text \<open>
  \<open>find_border_range_in_sheet\<close>: the cells of the rows 1 to \<open>max_row\<close> and the columns 1
  to \<open>max_column\<close> are visited, and the smallest and largest row and column of the cells
  with a border are kept; \<open>None\<close> when no cell has a border.
\<close>

definition bordered_positions :: "sheet \<Rightarrow> (nat \<times> nat) list" where
  "bordered_positions sh =
     filter (\<lambda>(r, c). has_border (cell_at sh r c))
       (concat (map (\<lambda>r. map (\<lambda>c. (r, c)) [1..<Suc (sh_max_column sh)]) [1..<Suc (sh_max_row sh)]))"

definition extend_range :: "nat \<times> nat \<Rightarrow> cell_range option \<Rightarrow> cell_range option" where
  "extend_range p acc =
     (case p of (r, c) \<Rightarrow>
        (case acc of
           None \<Rightarrow> Some \<lparr>rg_min_col = c, rg_min_row = r, rg_max_col = c, rg_max_row = r\<rparr>
         | Some rg \<Rightarrow> Some \<lparr>rg_min_col = min (rg_min_col rg) c, rg_min_row = min (rg_min_row rg) r,
                            rg_max_col = max (rg_max_col rg) c, rg_max_row = max (rg_max_row rg) r\<rparr>))"

definition find_border_range_in_sheet :: "sheet \<Rightarrow> cell_range option" where
  "find_border_range_in_sheet sh = fold extend_range (bordered_positions sh) None"

text \<open>
  \<open>are_tables_similar\<close>: the two ranges have the same number of columns,
  \<open>max_col - min_col + 1\<close>.
\<close>

definition column_count :: "cell_range \<Rightarrow> int" where
  "column_count rg = int (rg_max_col rg) - int (rg_min_col rg) + 1"

definition are_tables_similar :: "cell_range \<Rightarrow> cell_range \<Rightarrow> bool" where
  "are_tables_similar range1 range2 \<longleftrightarrow> column_count range1 = column_count range2"

text \<open>
  The truth value of a cell value (\<open>if cell.value\<close>), and the title test of a sheet: some
  cell of the scanned rows (the first \<open>scan_row_limit\<close> rows, or all rows when the limit
  is not positive) has a true value whose cleaned text the pattern matches. The pattern
  is the parameter \<open>compiled_regex\<close>, given as the predicate of \<open>search\<close>.
\<close>

definition truthy :: "pyval \<Rightarrow> bool" where
  "truthy v \<longleftrightarrow> (case v of PNone \<Rightarrow> False | PNum n \<Rightarrow> n \<noteq> 0 | PStr s \<Rightarrow> s \<noteq> [])"

definition sheet_matches :: "(ustr \<Rightarrow> bool) \<Rightarrow> int \<Rightarrow> sheet \<Rightarrow> bool" where
  "sheet_matches compiled_regex scan_row_limit sh \<longleftrightarrow>
     list_ex (\<lambda>r. list_ex (\<lambda>c. truthy (cvalue (cell_at sh r c))
                                \<and> compiled_regex (clean_cell (cvalue (cell_at sh r c))))
                     [1..<Suc (sh_max_column sh)])
       [1..<Suc (if scan_row_limit > 0 then min (nat scan_row_limit) (sh_max_row sh)
                 else sh_max_row sh)]"

text \<open>\<open>matched_sheets_info\<close>: the indices of the sheets that pass the title test, in order.\<close>

definition matched_sheets :: "(ustr \<Rightarrow> bool) \<Rightarrow> int \<Rightarrow> sheet list \<Rightarrow> nat list" where
  "matched_sheets compiled_regex scan_row_limit all_sheets =
     filter (\<lambda>index. sheet_matches compiled_regex scan_row_limit (all_sheets ! index))
       [0..<length all_sheets]"

text \<open>
  The continuation walk (the inner \<open>while\<close> loop): the next sheet is appended when it
  has a border range similar to the current one, and becomes the current one; else the
  walk stops.
\<close>

function continuation_walk :: "sheet list \<Rightarrow> cell_range \<Rightarrow> nat \<Rightarrow> (nat \<times> cell_range) list" where
  "continuation_walk all_sheets border_range next_sheet_index =
     (if next_sheet_index < length all_sheets then
        (case find_border_range_in_sheet (all_sheets ! next_sheet_index) of
           None \<Rightarrow> []
         | Some next_range \<Rightarrow>
             if are_tables_similar border_range next_range
             then (next_sheet_index, next_range)
                    # continuation_walk all_sheets next_range (next_sheet_index + 1)
             else [])
      else [])"
  by pat_completeness auto
termination
  by (relation "measure (\<lambda>(all_sheets, border_range, next_sheet_index).
        length all_sheets - next_sheet_index)") auto

declare continuation_walk.simps [simp del]

text \<open>
  \<open>final_tables\<close>: the loop over the matched sheets passes the sheets without a border
  range (\<open>continue\<close>), takes the first one that has a border range together with its
  continuation walk, and ends (\<open>break\<close>). The list is empty when no matched sheet has a
  border range.
\<close>

definition final_tables :: "sheet list \<Rightarrow> nat list \<Rightarrow> (nat \<times> cell_range) list" where
  "final_tables all_sheets matched =
     (case find (\<lambda>index. find_border_range_in_sheet (all_sheets ! index) \<noteq> None) matched of
        None \<Rightarrow> []
      | Some index \<Rightarrow>
          (case find_border_range_in_sheet (all_sheets ! index) of
             None \<Rightarrow> []
           | Some border_range \<Rightarrow>
               (index, border_range) # continuation_walk all_sheets border_range (index + 1)))"

text \<open>
  \<open>copy_range\<close>, cell by cell: the value is copied, and the style (here: the border) is
  copied when the source cell has a style.
\<close>

definition copy_cell :: "cell \<Rightarrow> cell" where
  "copy_cell c =
     (if has_style c then \<lparr>cvalue = cvalue c, has_style = True, border = border c\<rparr>
      else \<lparr>cvalue = cvalue c, has_style = False,
             border = \<lparr>left_style = None, right_style = None, top_style = None, bottom_style = None\<rparr>\<rparr>)"

definition range_height :: "cell_range \<Rightarrow> nat" where
  "range_height rg = rg_max_row rg - rg_min_row rg + 1"

definition range_width :: "cell_range \<Rightarrow> nat" where
  "range_width rg = rg_max_col rg - rg_min_col rg + 1"

text \<open>
  \<open>copy_range\<close>: the cells of the range are written into the destination from the row
  \<open>dest_start_row\<close> and the column \<open>dest_start_col\<close> on, and the merged ranges of the
  source that lie inside the range are merged in the destination, moved by the same
  offset. The destination grows to hold the written cells.
\<close>

definition copy_range :: "sheet \<Rightarrow> sheet \<Rightarrow> cell_range \<Rightarrow> nat \<Rightarrow> nat \<Rightarrow> sheet" where
  "copy_range source_sheet dest_sheet rg dest_start_row dest_start_col =
     \<lparr>sh_max_row = max (sh_max_row dest_sheet) (dest_start_row + range_height rg - 1),
      sh_max_column = max (sh_max_column dest_sheet) (dest_start_col + range_width rg - 1),
      cell_at = (\<lambda>r c.
         if dest_start_row \<le> r \<and> r < dest_start_row + range_height rg \<and>
            dest_start_col \<le> c \<and> c < dest_start_col + range_width rg
         then copy_cell (cell_at source_sheet (rg_min_row rg + (r - dest_start_row))
                                              (rg_min_col rg + (c - dest_start_col)))
         else cell_at dest_sheet r c),
      merged_cells = merged_cells dest_sheet @
         map (\<lambda>m. \<lparr>min_row = dest_start_row + min_row m - rg_min_row rg,
                     max_row = dest_start_row + max_row m - rg_min_row rg,
                     min_col = dest_start_col + min_col m - rg_min_col rg,
                     max_col = dest_start_col + max_col m - rg_min_col rg\<rparr>)
           (filter (\<lambda>m. min_row m \<ge> rg_min_row rg \<and> max_row m \<le> rg_max_row rg \<and>
                         min_col m \<ge> rg_min_col rg \<and> max_col m \<le> rg_max_col rg)
              (merged_cells source_sheet))\<rparr>"

text \<open>
  The sheet of a new workbook (the library reports one row and one column for a sheet
  without cells), and the writing loop: every table is copied below the previous one,
  \<open>next_row_to_write\<close> advancing by the height of the range.
\<close>

definition new_sheet :: sheet where
  "new_sheet = \<lparr>sh_max_row = 1, sh_max_column = 1, cell_at = (\<lambda>r c. empty_cell), merged_cells = []\<rparr>"

definition write_tables :: "sheet list \<Rightarrow> (nat \<times> cell_range) list \<Rightarrow> sheet \<times> nat \<Rightarrow> sheet \<times> nat" where
  "write_tables all_sheets tables start =
     fold (\<lambda>(index, rg) (dest_sheet, next_row_to_write).
             (copy_range (all_sheets ! index) dest_sheet rg next_row_to_write 1,
              next_row_to_write + range_height rg))
       tables start"

text \<open>
  The failures of \<open>consolidate_tables_from_group\<close> that depend on the sheets. The source
  returns the same triple \<open>(None, [], -1)\<close> at both places; the names tell them apart.
\<close>

datatype consolidate_error = NoTitleMatch | NoTableFound

text \<open>
  \<open>consolidate_tables_from_group\<close>, from the loaded sheets of the group on: the
  consolidated sheet and the index of the last sheet taken. (Loading the files and saving
  the workbook are input and output; the consolidated sheet is read back from the saved
  file as it was written.)
\<close>

definition consolidate_tables_from_group ::
  "sheet list \<Rightarrow> (ustr \<Rightarrow> bool) \<Rightarrow> int \<Rightarrow> consolidate_error + (sheet \<times> nat)" where
  "consolidate_tables_from_group all_sheets_in_group compiled_regex scan_row_limit =
     (let matched = matched_sheets compiled_regex scan_row_limit all_sheets_in_group
      in if matched = [] then Inl NoTitleMatch
         else (let tables = final_tables all_sheets_in_group matched
               in if tables = [] then Inl NoTableFound
                  else Inr (fst (write_tables all_sheets_in_group tables (new_sheet, 1)),
                            fst (last tables))))"

subsection \<open>Notions used to state the consolidation properties\<close>


text \<open>The ranges \<open>B2:F10\<close>, \<open>B2:E10\<close> and \<open>A2:C3\<close>.\<close>

definition B2_F10 :: cell_range where
  "B2_F10 = \<lparr>rg_min_col = 2, rg_min_row = 2, rg_max_col = 6, rg_max_row = 10\<rparr>"


definition A2_C3 :: cell_range where
  "A2_C3 = \<lparr>rg_min_col = 1, rg_min_row = 2, rg_max_col = 3, rg_max_row = 3\<rparr>"

text \<open>
  The first matched sheet that has a border range: it has one, and no matched sheet
  before it has.
\<close>

definition first_bordered_match :: "sheet list \<Rightarrow> nat list \<Rightarrow> nat \<Rightarrow> bool" where
  "first_bordered_match all_sheets matched index \<longleftrightarrow>
     find (\<lambda>i. find_border_range_in_sheet (all_sheets ! i) \<noteq> None) matched = Some index"

text \<open>
  The search of the configured title pattern \<open>PATTERN_TO_FIND\<close>. Its year and its up to
  three leading characters are optional, so the pattern is found exactly in the texts
  that contain the title words.
\<close>

definition TITLE_WORDS :: ustr where
  "TITLE_WORDS = [19987, 39033, 20538, 21048, 39033, 30446, 20449, 24687]"

definition title_search :: "ustr \<Rightarrow> bool" where
  "title_search s \<longleftrightarrow>
     list_ex (\<lambda>i. take (length TITLE_WORDS) (drop i s) = TITLE_WORDS) [0..<Suc (length s)]"

text \<open>
  A page of a report: the title in the cell A1 and a bordered table in the range
  \<open>B2:F10\<close>; a sheet with the title and no bordered cell; and a page whose table is one
  column narrower.
\<close>

definition example_page :: sheet where
  "example_page = \<lparr>sh_max_row = 10, sh_max_column = 6,
     cell_at = (\<lambda>r c.
        if r = 1 \<and> c = 1 then plain_cell (PStr TITLE_WORDS)
        else if 2 \<le> r \<and> r \<le> 10 \<and> 2 \<le> c \<and> c \<le> 6 then bordered_cell (PNum (int (10 * r + c)))
        else empty_cell),
     merged_cells = []\<rparr>"

definition example_cover :: sheet where
  "example_cover = \<lparr>sh_max_row = 1, sh_max_column = 1,
     cell_at = (\<lambda>r c. if r = 1 \<and> c = 1 then plain_cell (PStr TITLE_WORDS) else empty_cell),
     merged_cells = []\<rparr>"


text \<open>
  A one-sheet report: the title in A1 and, bordered, the header row and one data row in
  the range \<open>A2:C3\<close>.
\<close>

definition example_report_sheet :: sheet where
  "example_report_sheet = \<lparr>sh_max_row = 3, sh_max_column = 3,
     cell_at = (\<lambda>r c.
        if r = 1 \<and> c = 1 then plain_cell (PStr TITLE_WORDS)
        else if r = 2 \<and> c = 1 then bordered_cell (PStr [39033, 30446, 21517, 31216])
        else if r = 2 \<and> c = 2 then bordered_cell (PStr [39033, 30446, 21333, 20301])
        else if r = 2 \<and> c = 3 then bordered_cell (PStr [20027, 31649, 37096, 38376])
        else if r = 3 \<and> c = 1 then bordered_cell (PStr [30002])
        else if r = 3 \<and> c = 2 then bordered_cell (PStr [85])
        else if r = 3 \<and> c = 3 then bordered_cell (PStr [68])
        else empty_cell),
     merged_cells = []\<rparr>"

text \<open>The consolidated sheet of the one-sheet report: its range written from A1 on.\<close>

definition example_report_consolidated :: sheet where
  "example_report_consolidated = copy_range example_report_sheet new_sheet A2_C3 1 1"




section \<open>Output table, processing log and the main loop\<close>

text \<open>
  A data frame: the column names in order and the rows, each holding one value per
  column (\<open>PNone\<close> stands for a missing value).
\<close>

record dataframe =
  df_columns :: "ustr list"
  df_rows :: "pyval list list"

definition empty_frame :: dataframe where
  "empty_frame = \<lparr>df_columns = [], df_rows = []\<rparr>"

text \<open>
  The frame written for a group: \<open>pd.DataFrame(enriched_data)\<close>, completed with a column
  of \<open>None\<close> for every name of \<open>FINAL_COLUMN_ORDER\<close> it lacks, and restricted to
  \<open>FINAL_COLUMN_ORDER\<close> in that order. A record without a key has a missing value there.
\<close>

definition final_frame :: "pydict list \<Rightarrow> dataframe" where
  "final_frame enriched_data =
     \<lparr>df_columns = FINAL_COLUMN_ORDER,
      df_rows = map (\<lambda>record. map (\<lambda>col. dict_get record col) FINAL_COLUMN_ORDER) enriched_data\<rparr>"

text \<open>
  \<open>pd.concat([a, b], ignore_index=True)\<close>: the columns of \<open>a\<close> followed by the new columns
  of \<open>b\<close>; every row is laid out on these columns, with a missing value where its frame
  has no such column.
\<close>

definition reindex_row :: "ustr list \<Rightarrow> ustr list \<Rightarrow> pyval list \<Rightarrow> pyval list" where
  "reindex_row new_columns old_columns row =
     map (\<lambda>col. case index_of old_columns col of
                   None \<Rightarrow> PNone
                 | Some j \<Rightarrow> if j < length row then row ! j else PNone) new_columns"

definition concat_frames :: "dataframe \<Rightarrow> dataframe \<Rightarrow> dataframe" where
  "concat_frames a b =
     (let cols = df_columns a @ filter (\<lambda>col. col \<notin> set (df_columns a)) (df_columns b)
      in \<lparr>df_columns = cols,
          df_rows = map (reindex_row cols (df_columns a)) (df_rows a) @ map (reindex_row cols (df_columns b)) (df_rows b)\<rparr>)"

text \<open>
  The output file: the data table and the log table (the processed group identifiers, in
  the order in which they were written). \<open>None\<close> is the state in which the file does not
  exist.
\<close>

record output_file =
  panel_data :: dataframe
  processing_log :: "ustr list"

text \<open>
  \<open>load_processed_log_from_excel\<close>: the set of the logged identifiers, empty without a
  file.
\<close>

definition load_processed_log_from_excel :: "output_file option \<Rightarrow> ustr set" where
  "load_processed_log_from_excel file =
     (case file of None \<Rightarrow> {} | Some f \<Rightarrow> set (processing_log f))"

text \<open>
  \<open>append_data_and_log_to_excel\<close>, when the file can be written: the new rows are put
  under the existing data and the identifier under the existing log, and both tables are
  written.
\<close>

definition append_data_and_log_to_excel :: "output_file option \<Rightarrow> dataframe \<Rightarrow> ustr \<Rightarrow> output_file option" where
  "append_data_and_log_to_excel file new_data_df group_identifier =
     (let existing_data_df = (case file of None \<Rightarrow> empty_frame | Some f \<Rightarrow> panel_data f);
          existing_log_df = (case file of None \<Rightarrow> [] | Some f \<Rightarrow> processing_log f)
      in Some \<lparr>panel_data = concat_frames existing_data_df new_data_df,
               processing_log = existing_log_df @ [group_identifier]\<rparr>)"

text \<open>
  What the run reads from the input directory, which the run does not change: the
  discovered groups (the paths of each group's files, in page order), the sheets loaded
  from the files of a group (\<open>None\<close> when a file cannot be loaded), and the year, the
  region and the source name read off a path.
\<close>

record input_dir =
  excel_file_groups :: "ustr list list"
  load_sheets :: "ustr list \<Rightarrow> sheet list option"
  path_year :: "ustr \<Rightarrow> ustr"
  path_region :: "ustr \<Rightarrow> ustr"
  path_name :: "ustr \<Rightarrow> ustr"

definition group_metadata :: "input_dir \<Rightarrow> ustr \<Rightarrow> pydict" where
  "group_metadata inp group_identifier =
     [KEY_YEAR \<mapsto> PStr (path_year inp group_identifier),
      KEY_REGION \<mapsto> PStr (path_region inp group_identifier),
      KEY_SOURCE \<mapsto> PStr (path_name inp group_identifier)]"

text \<open>
  Steps 1 and 2 of the loop body of \<open>main\<close> for one group: the enriched records, none when
  the group cannot be loaded or consolidated. The pattern is \<open>PATTERN_TO_FIND\<close> and the
  scan limit \<open>SCAN_ROW_LIMIT = 3\<close>.
\<close>

definition enriched_data_of_group :: "input_dir \<Rightarrow> ustr list \<Rightarrow> pydict list" where
  "enriched_data_of_group inp file_group =
     (case load_sheets inp file_group of
        None \<Rightarrow> []
      | Some original_sheets \<Rightarrow>
          (case consolidate_tables_from_group original_sheets title_search 3 of
             Inl failure \<Rightarrow> []
           | Inr (consolidated, last_sheet_idx) \<Rightarrow>
               extract_data_with_extended_vars consolidated original_sheets last_sheet_idx
                 (group_metadata inp (hd file_group))))"

text \<open>
  The loop body of \<open>main\<close>: a group whose identifier (its first path) is in the set read
  from the log at the start of the run is skipped; else its records, if any, are appended
  with its identifier.
\<close>

definition process_group :: "input_dir \<Rightarrow> ustr set \<Rightarrow> ustr list \<Rightarrow> output_file option \<Rightarrow> output_file option" where
  "process_group inp processed_groups file_group file =
     (let group_identifier = hd file_group
      in if group_identifier \<in> processed_groups then file
         else (let enriched_data = enriched_data_of_group inp file_group
               in if enriched_data \<noteq> []
                  then append_data_and_log_to_excel file (final_frame enriched_data) group_identifier
                  else file))"

text \<open>\<open>main\<close>: the log is read once, then the groups are processed in order.\<close>

definition main :: "input_dir \<Rightarrow> output_file option \<Rightarrow> output_file option" where
  "main inp file =
     fold (process_group inp (load_processed_log_from_excel file)) (excel_file_groups inp) file"

subsection \<open>Notions used to state the properties of a run\<close>

text \<open>The groups that a run started on the file skips: their identifier is in the log.\<close>

definition skipped_groups :: "input_dir \<Rightarrow> output_file option \<Rightarrow> ustr list list" where
  "skipped_groups inp file =
     filter (\<lambda>file_group. hd file_group \<in> load_processed_log_from_excel file) (excel_file_groups inp)"

text \<open>The data table of the file has the fixed schema: its columns, and rows of that length.\<close>

definition schema_ok :: "output_file option \<Rightarrow> bool" where
  "schema_ok file \<longleftrightarrow>
     (case file of
        None \<Rightarrow> True
      | Some f \<Rightarrow> df_columns (panel_data f) = FINAL_COLUMN_ORDER \<and>
                  list_all (\<lambda>row. length row = length FINAL_COLUMN_ORDER) (df_rows (panel_data f)))"

text \<open>
  An input directory with two groups of one file each: the first holds the one-sheet
  report, the second only a title sheet without a table.
\<close>

definition example_input :: input_dir where
  "example_input = \<lparr>excel_file_groups = [[[97]], [[98]]],
     load_sheets = (\<lambda>file_group.
        if file_group = [[97]] then Some [example_report_sheet]
        else if file_group = [[98]] then Some [example_cover] else None),
     path_year = (\<lambda>p. [50, 48, 50, 48]),
     path_region = (\<lambda>p. [65]),
     path_name = (\<lambda>p. p)\<rparr>"

text \<open>The rows of the data table of the file, none without a file.\<close>

definition existing_rows :: "output_file option \<Rightarrow> pyval list list" where
  "existing_rows file = (case file of None \<Rightarrow> [] | Some f \<Rightarrow> df_rows (panel_data f))"


section \<open>Properties of the layout resolver\<close>

lemma logical_starts_from_ge: "x \<in> set (logical_starts_from sh r c) \<Longrightarrow> c \<le> x"
proof (induction sh r c rule: logical_starts_from.induct)
  case (1 sh r c)
  show ?case
  proof (cases "c \<le> sh_max_column sh")
    case False
    with "1.prems" show ?thesis by (simp add: logical_starts_from.simps)
  next
    case True
    show ?thesis
    proof (cases "find (\<lambda>m. covers m r c) (merged_cells sh)")
      case None
      with True "1.prems" have "x = c \<or> x \<in> set (logical_starts_from sh r (c + 1))"
        by (simp add: logical_starts_from.simps[of sh r c])
      with "1.IH"(1)[OF True None] show ?thesis by auto
    next
      case (Some m)
      then have "c \<le> max_col m" by (auto simp: find_Some_iff covers_def)
      moreover from True Some "1.prems" have "x = c \<or> x \<in> set (logical_starts_from sh r (max_col m + 1))"
        by (simp add: logical_starts_from.simps[of sh r c])
      ultimately show ?thesis using "1.IH"(2)[OF True Some] by auto
    qed
  qed
qed

lemma logical_starts_from_sorted: "sorted_wrt (<) (logical_starts_from sh r c)"
proof (induction sh r c rule: logical_starts_from.induct)
  case (1 sh r c)
  show ?case
  proof (cases "c \<le> sh_max_column sh")
    case False
    then show ?thesis by (simp add: logical_starts_from.simps)
  next
    case True
    show ?thesis
    proof (cases "find (\<lambda>m. covers m r c) (merged_cells sh)")
      case None
      have "\<forall>x \<in> set (logical_starts_from sh r (c + 1)). c < x"
        using logical_starts_from_ge[of _ sh r "c + 1"] by fastforce
      with "1.IH"(1)[OF True None] True None show ?thesis
        by (simp add: logical_starts_from.simps[of sh r c])
    next
      case (Some m)
      then have "c \<le> max_col m" by (auto simp: find_Some_iff covers_def)
      then have "\<forall>x \<in> set (logical_starts_from sh r (max_col m + 1)). c < x"
        using logical_starts_from_ge[of _ sh r "max_col m + 1"] by fastforce
      with "1.IH"(2)[OF True Some] True Some show ?thesis
        by (simp add: logical_starts_from.simps[of sh r c])
    qed
  qed
qed

lemma logical_starts_hd: "1 \<le> sh_max_column sh \<Longrightarrow> \<exists>rest. get_logical_starts_for_row sh r = 1 # rest"
  unfolding get_logical_starts_for_row_def by (subst logical_starts_from.simps) simp


lemma filter_upt_Cons: "c < n \<Longrightarrow> P c \<Longrightarrow> filter P [c..<n] = c # filter P [Suc c..<n]"
  by (simp add: upt_conv_Cons)

lemma filter_upt_skip:
  assumes "c \<le> k" and "\<forall>x. c \<le> x \<and> x < k \<longrightarrow> \<not> P x"
  shows "filter P [c..<n] = filter P [k..<n]"
proof (cases "k \<le> n")
  case True
  with assms(1) have "[c..<n] = [c..<k] @ [k..<n]"
    by (metis le_Suc_ex upt_add_eq_append)
  moreover from assms(2) have "filter P [c..<k] = []" by (auto simp: filter_empty_conv)
  ultimately show ?thesis by simp
next
  case False
  with assms(2) have "filter P [c..<n] = []" by (auto simp: filter_empty_conv)
  with False show ?thesis by simp
qed

lemma logical_starts_from_filter:
  "row_merges_disjoint sh r \<Longrightarrow> \<not> inside_earlier_merge sh r c \<Longrightarrow>
    logical_starts_from sh r c =
      filter (\<lambda>x. \<not> inside_earlier_merge sh r x) [c..<Suc (sh_max_column sh)]"
proof (induction sh r c rule: logical_starts_from.induct)
  case (1 sh r c)
  note wf = "1.prems"(1) and nin = "1.prems"(2)
  let ?P = "\<lambda>x. \<not> inside_earlier_merge sh r x"
  let ?n = "Suc (sh_max_column sh)"
  show ?case
  proof (cases "c \<le> sh_max_column sh")
    case False
    then show ?thesis by (simp add: logical_starts_from.simps[of sh r c])
  next
    case True
    then have hd: "filter ?P [c..<?n] = c # filter ?P [Suc c..<?n]"
      using nin by (intro filter_upt_Cons) auto
    show ?thesis
    proof (cases "find (\<lambda>m. covers m r c) (merged_cells sh)")
      case None
      then have nocov: "\<forall>m \<in> set (merged_cells sh). \<not> covers m r c"
        by (auto simp: find_None_iff)
      have "\<not> inside_earlier_merge sh r (c + 1)"
      proof
        assume "inside_earlier_merge sh r (c + 1)"
        then obtain m where "m \<in> set (merged_cells sh)" "covers_row m r"
            "min_col m < c + 1" "c + 1 \<le> max_col m"
          by (auto simp: inside_earlier_merge_def list_ex_iff)
        then have "covers m r c" by (simp add: covers_def covers_row_def)
        with nocov \<open>m \<in> set (merged_cells sh)\<close> show False by blast
      qed
      from "1.IH"(1)[OF True None wf this] True None hd show ?thesis
        by (simp add: logical_starts_from.simps[of sh r c])
    next
      case (Some m)
      then have m: "m \<in> set (merged_cells sh)" "covers m r c"
        by (auto simp: find_Some_iff in_set_conv_nth)
      then have cr: "covers_row m r" and cm: "min_col m \<le> c" "c \<le> max_col m"
        by (auto simp: covers_def covers_row_def)
      have minc: "min_col m = c"
      proof (rule ccontr)
        assume "min_col m \<noteq> c"
        with cm have "min_col m < c" by simp
        with m(1) cr cm(2) have "inside_earlier_merge sh r c"
          by (auto simp: inside_earlier_merge_def list_ex_iff)
        with nin show False by contradiction
      qed
      have inner: "\<forall>x. Suc c \<le> x \<and> x < max_col m + 1 \<longrightarrow> \<not> ?P x"
      proof (intro allI impI)
        fix x assume "Suc c \<le> x \<and> x < max_col m + 1"
        with minc have "min_col m < x" "x \<le> max_col m" by auto
        with m(1) cr have "inside_earlier_merge sh r x"
          unfolding inside_earlier_merge_def list_ex_iff by blast
        then show "\<not> ?P x" by simp
      qed
      have next_ok: "\<not> inside_earlier_merge sh r (max_col m + 1)"
      proof
        assume "inside_earlier_merge sh r (max_col m + 1)"
        then obtain m' where m': "m' \<in> set (merged_cells sh)" "covers_row m' r"
            "min_col m' < max_col m + 1" "max_col m + 1 \<le> max_col m'"
          by (auto simp: inside_earlier_merge_def list_ex_iff)
        from cm m'(3,4) have "max (min_col m) (min_col m') \<le> min (max_col m) (max_col m')"
          by simp
        with wf m(1) cr m'(1,2) have "max_col m' = max_col m"
          unfolding row_merges_disjoint_def list_all_iff by blast
        with m'(4) show False by simp
      qed
      have "filter ?P [Suc c..<?n] = filter ?P [max_col m + 1..<?n]"
        using cm(2) inner by (intro filter_upt_skip) auto
      with "1.IH"(2)[OF True Some wf next_ok] True Some hd show ?thesis
        by (simp add: logical_starts_from.simps[of sh r c])
    qed
  qed
qed

lemma not_inside_first: "row_merges_disjoint sh r \<Longrightarrow> \<not> inside_earlier_merge sh r 1"
  unfolding row_merges_disjoint_def inside_earlier_merge_def list_all_iff list_ex_iff
  by fastforce

lemma logical_starts_prefix:
  assumes span: "\<forall>m \<in> set (merged_cells sh). covers_row m r \<longrightarrow> min_col m = 2 \<and> max_col m = 3"
    and ex: "\<exists>m \<in> set (merged_cells sh). covers_row m r"
    and wide: "4 \<le> sh_max_column sh"
  shows "take 3 (get_logical_starts_for_row sh r) = [1, 2, 4]"
proof -
  have f1: "find (\<lambda>m. covers m r 1) (merged_cells sh) = None"
    using span by (fastforce simp: find_None_iff covers_def covers_row_def)
  have f4: "find (\<lambda>m. covers m r 4) (merged_cells sh) = None"
    using span by (fastforce simp: find_None_iff covers_def covers_row_def)
  from ex obtain m0 where "m0 \<in> set (merged_cells sh)" "covers m0 r 2"
    using span by (fastforce simp: covers_def covers_row_def)
  then obtain m where f2: "find (\<lambda>m. covers m r 2) (merged_cells sh) = Some m"
    by (cases "find (\<lambda>m. covers m r 2) (merged_cells sh)") (auto simp: find_None_iff)
  then have "m \<in> set (merged_cells sh)" "covers m r 2"
    by (auto simp: find_Some_iff in_set_conv_nth)
  with span have mc: "max_col m = 3" by (auto simp: covers_def covers_row_def)
  have s1: "logical_starts_from sh r 1 = 1 # logical_starts_from sh r 2"
    using wide f1 by (subst logical_starts_from.simps) (simp add: numeral_2_eq_2)
  have s2: "logical_starts_from sh r 2 = 2 # logical_starts_from sh r 4"
    using wide f2 mc by (subst logical_starts_from.simps) simp
  have s4: "logical_starts_from sh r 4 = 4 # logical_starts_from sh r 5"
    using wide f4 by (subst logical_starts_from.simps) simp
  have "get_logical_starts_for_row sh r = 1 # 2 # 4 # logical_starts_from sh r 5"
    unfolding get_logical_starts_for_row_def by (simp only: s1 s2 s4)
  then show ?thesis by (simp add: numeral_3_eq_3)
qed

text \<open>
  C6, as the code has it: in a row whose merged ranges span the columns 2 to 3, on a sheet
  at least 4 columns wide, the logical starts begin 1, 2, 4: column 3 gives no slot. In
  general, when the merged ranges covering the row do not overlap, the logical starts are
  the columns from 1 to the sheet's last column, in ascending order, that do not lie
  inside a merged range covering the row that started at an earlier column: the scan
  jumps past the last column of such a range.
\<close>

theorem logical_starts_skip_merged:
  "(row_merges_span sh r 2 3 \<and> 4 \<le> sh_max_column sh \<longrightarrow>
      take 3 (get_logical_starts_for_row sh r) = [1, 2, 4]) \<and>
   (row_merges_disjoint sh r \<longrightarrow>
      get_logical_starts_for_row sh r =
        filter (\<lambda>c. \<not> inside_earlier_merge sh r c) [1..<Suc (sh_max_column sh)])"
proof (intro conjI impI)
  assume "row_merges_span sh r 2 3 \<and> 4 \<le> sh_max_column sh"
  then show "take 3 (get_logical_starts_for_row sh r) = [1, 2, 4]"
    by (intro logical_starts_prefix) (auto simp: row_merges_span_def list_all_iff list_ex_iff)
next
  assume wf: "row_merges_disjoint sh r"
  from logical_starts_from_filter[OF wf not_inside_first[OF wf]]
  show "get_logical_starts_for_row sh r =
        filter (\<lambda>c. \<not> inside_earlier_merge sh r c) [1..<Suc (sh_max_column sh)]"
    by (simp add: get_logical_starts_for_row_def)
qed

theorem logical_starts_skip_merged_witness:
  "row_merges_span example_merged_sheet 1 2 3 \<and> 4 \<le> sh_max_column example_merged_sheet \<and>
   take 3 (get_logical_starts_for_row example_merged_sheet 1) = [1, 2, 4] \<and>
   row_merges_disjoint example_merged_sheet 1 \<and>
   get_logical_starts_for_row example_merged_sheet 1 = [1, 2, 4, 5] \<and>
   filter (\<lambda>c. \<not> inside_earlier_merge example_merged_sheet 1 c)
      [1..<Suc (sh_max_column example_merged_sheet)] = [1, 2, 4, 5]"
proof -
  have a: "row_merges_span example_merged_sheet 1 2 3"
    by (simp add: row_merges_span_def example_merged_sheet_def covers_row_def)
  have b: "4 \<le> sh_max_column example_merged_sheet"
    by (simp add: example_merged_sheet_def)
  have c: "row_merges_disjoint example_merged_sheet 1"
    by (simp add: row_merges_disjoint_def example_merged_sheet_def covers_row_def)
  have d: "get_logical_starts_for_row example_merged_sheet 1 = [1, 2, 4, 5]"
    by code_simp
  note t = logical_starts_skip_merged[of example_merged_sheet 1]
  from t a b have t1: "take 3 (get_logical_starts_for_row example_merged_sheet 1) = [1, 2, 4]"
    by blast
  from t c have "get_logical_starts_for_row example_merged_sheet 1 =
      filter (\<lambda>c. \<not> inside_earlier_merge example_merged_sheet 1 c)
        [1..<Suc (sh_max_column example_merged_sheet)]"
    by blast
  with d have e: "filter (\<lambda>c. \<not> inside_earlier_merge example_merged_sheet 1 c)
        [1..<Suc (sh_max_column example_merged_sheet)] = [1, 2, 4, 5]"
    by (simp only:)
  show ?thesis by (intro conjI a b t1 c d e)
qed

text \<open>
  C6 as stated fails, for the general rule: in a row with the overlapping merged ranges
  \<open>B1:D1\<close> and \<open>C1:F1\<close> the scan jumps from column 2 past the first range to column 5,
  which lies inside the second range, started at the earlier column 3, and column 5 is
  appended as a slot: the logical starts are 1, 2, 5, 7 where the rule gives 1, 2, 7.
\<close>

theorem logical_starts_overlap_counterexample:
  "get_logical_starts_for_row example_overlapping_sheet 1 = [1, 2, 5, 7] \<and>
   claimed_logical_starts example_overlapping_sheet 1 = [1, 2, 7] \<and>
   inside_earlier_merge example_overlapping_sheet 1 5 \<and>
   get_logical_starts_for_row example_overlapping_sheet 1
     \<noteq> claimed_logical_starts example_overlapping_sheet 1"
proof -
  have a: "get_logical_starts_for_row example_overlapping_sheet 1 = [1, 2, 5, 7]"
    by code_simp
  have b: "claimed_logical_starts example_overlapping_sheet 1 = [1, 2, 7]"
    by code_simp
  have c: "inside_earlier_merge example_overlapping_sheet 1 5"
    by code_simp
  have d: "get_logical_starts_for_row example_overlapping_sheet 1
     \<noteq> claimed_logical_starts example_overlapping_sheet 1"
    unfolding a b by simp
  show ?thesis by (intro conjI a b c d)
qed

text \<open>
  C10: the logical starts of a row are strictly increasing and, on a sheet with at least
  one column, start with column 1; two distinct valid logical indices of one row are
  mapped to two distinct absolute columns.
\<close>

theorem logical_starts_strictly_increasing:
  "sorted_wrt (<) (get_logical_starts_for_row sh r) \<and>
   (1 \<le> sh_max_column sh \<longrightarrow>
      get_logical_starts_for_row sh r \<noteq> [] \<and> hd (get_logical_starts_for_row sh r) = 1) \<and>
   (\<forall>i j a b. i \<noteq> j \<and>
        get_absolute_col_from_logical_index_for_row sh r i = Some a \<and>
        get_absolute_col_from_logical_index_for_row sh r j = Some b \<longrightarrow> a \<noteq> b)"
proof (intro conjI)
  show s: "sorted_wrt (<) (get_logical_starts_for_row sh r)"
    by (simp add: get_logical_starts_for_row_def logical_starts_from_sorted)
  show "1 \<le> sh_max_column sh \<longrightarrow>
      get_logical_starts_for_row sh r \<noteq> [] \<and> hd (get_logical_starts_for_row sh r) = 1"
    using logical_starts_hd[of sh r] by auto
  from s have d: "distinct (get_logical_starts_for_row sh r)"
    by (simp add: strict_sorted_iff)
  show "\<forall>i j a b. i \<noteq> j \<and>
        get_absolute_col_from_logical_index_for_row sh r i = Some a \<and>
        get_absolute_col_from_logical_index_for_row sh r j = Some b \<longrightarrow> a \<noteq> b"
  proof (intro allI impI)
    fix i j a b
    assume h: "i \<noteq> j \<and>
        get_absolute_col_from_logical_index_for_row sh r i = Some a \<and>
        get_absolute_col_from_logical_index_for_row sh r j = Some b"
    let ?ls = "get_logical_starts_for_row sh r"
    from h have i: "1 \<le> i" "i \<le> length ?ls" "a = ?ls ! (i - 1)"
      by (auto simp: get_absolute_col_from_logical_index_for_row_def Let_def split: if_splits)
    from h have j: "1 \<le> j" "j \<le> length ?ls" "b = ?ls ! (j - 1)"
      by (auto simp: get_absolute_col_from_logical_index_for_row_def Let_def split: if_splits)
    from h i j have "i - 1 \<noteq> j - 1" "i - 1 < length ?ls" "j - 1 < length ?ls" by auto
    with d i j show "a \<noteq> b" by (simp add: nth_eq_iff_index_eq)
  qed
qed

theorem logical_starts_strictly_increasing_witness:
  "sorted_wrt (<) (get_logical_starts_for_row example_merged_sheet 1) \<and>
   1 \<le> sh_max_column example_merged_sheet \<and>
   hd (get_logical_starts_for_row example_merged_sheet 1) = 1 \<and>
   (2::nat) \<noteq> 3 \<and>
   get_absolute_col_from_logical_index_for_row example_merged_sheet 1 2 = Some 2 \<and>
   get_absolute_col_from_logical_index_for_row example_merged_sheet 1 3 = Some 4 \<and>
   (2::nat) \<noteq> 4"
proof -
  have b: "1 \<le> sh_max_column example_merged_sheet"
    by (simp add: example_merged_sheet_def)
  have i2: "get_absolute_col_from_logical_index_for_row example_merged_sheet 1 2 = Some 2"
    by code_simp
  have i3: "get_absolute_col_from_logical_index_for_row example_merged_sheet 1 3 = Some 4"
    by code_simp
  note t = logical_starts_strictly_increasing[of example_merged_sheet 1]
  from t have s: "sorted_wrt (<) (get_logical_starts_for_row example_merged_sheet 1)"
    by blast
  from t b have h: "hd (get_logical_starts_for_row example_merged_sheet 1) = 1"
    by blast
  have n: "(2::nat) \<noteq> 3" by simp
  from t n i2 i3 have ne: "(2::nat) \<noteq> 4" by blast
  show ?thesis by (intro conjI s b h n i2 i3 ne)
qed


section \<open>Properties of forward fill\<close>

lemma blank_PNone [simp]: "blank PNone"
  by (simp add: blank_def clean_cell_def)

lemma not_blank_iff: "\<not> blank v \<longleftrightarrow> v \<noteq> PNone \<and> clean_cell v \<noteq> []"
  by (auto simp: blank_def clean_cell_def)

lemma length_ffill_column [simp]: "length (ffill_column c l rows) = length rows"
  by (induction rows arbitrary: l) auto

lemma ffill_column_row_length:
  "r < length rows \<Longrightarrow> length (ffill_column c l rows ! r) = length (rows ! r)"
proof (induction rows arbitrary: l r)
  case Nil then show ?case by simp
next
  case (Cons row rows)
  then show ?case by (cases r) auto
qed

lemma ffill_column_same:
  "r < length rows \<Longrightarrow> c < length (rows ! r) \<Longrightarrow>
   ffill_column c l rows ! r ! c = fill_list l (map (\<lambda>row. row ! c) rows) ! r"
proof (induction rows arbitrary: l r)
  case Nil then show ?case by simp
next
  case (Cons row rows)
  then show ?case by (cases r) (auto simp: not_blank_iff)
qed

lemma ffill_column_other:
  "r < length rows \<Longrightarrow> c' \<noteq> c \<Longrightarrow> ffill_column c l rows ! r ! c' = rows ! r ! c'"
proof (induction rows arbitrary: l r)
  case Nil then show ?case by simp
next
  case (Cons row rows)
  then show ?case by (cases r) auto
qed

lemma length_fill_list [simp]: "length (fill_list l xs) = length xs"
  by (induction xs arbitrary: l) auto

lemma fill_list_nonblank:
  "r < length xs \<Longrightarrow> \<not> blank (xs ! r) \<Longrightarrow> fill_list l xs ! r = xs ! r"
proof (induction xs arbitrary: l r)
  case Nil then show ?case by simp
next
  case (Cons x xs)
  then show ?case by (cases r) auto
qed

lemma fill_list_all_blank:
  "r < length xs \<Longrightarrow> \<forall>j \<le> r. blank (xs ! j) \<Longrightarrow>
   fill_list l xs ! r = (if l \<noteq> PNone then l else xs ! r)"
proof (induction xs arbitrary: l r)
  case Nil then show ?case by simp
next
  case (Cons x xs)
  show ?case
  proof (cases r)
    case 0
    with Cons.prems show ?thesis by auto
  next
    case (Suc r')
    from Cons.prems(2) have bx: "blank x" by force
    from Cons.prems(2) Suc have "\<forall>j \<le> r'. blank (xs ! j)" by force
    with Cons.IH[of r' l] Cons.prems(1) Suc bx show ?thesis by auto
  qed
qed

lemma fill_list_nearest:
  "r < length xs \<Longrightarrow> k < r \<Longrightarrow> \<not> blank (xs ! k) \<Longrightarrow> \<forall>j. k < j \<and> j \<le> r \<longrightarrow> blank (xs ! j) \<Longrightarrow>
   fill_list l xs ! r = xs ! k"
proof (induction xs arbitrary: l r k)
  case Nil then show ?case by simp
next
  case (Cons x xs)
  from Cons.prems obtain r' where r: "r = Suc r'" by (cases r) auto
  show ?case
  proof (cases k)
    case 0
    with Cons.prems have nb: "\<not> blank x" by simp
    then have xn: "x \<noteq> PNone" by auto
    from Cons.prems 0 r have "\<forall>j \<le> r'. blank (xs ! j)" by force
    with fill_list_all_blank[of r' xs x] Cons.prems(1) r have "fill_list x xs ! r' = x"
      using xn by simp
    with nb r 0 show ?thesis by simp
  next
    case (Suc k')
    from Cons.prems Suc r have a: "r' < length xs" "k' < r'" "\<not> blank (xs ! k')" by auto
    from Cons.prems(4) Suc r have b: "\<forall>j. k' < j \<and> j \<le> r' \<longrightarrow> blank (xs ! j)" by force
    from Cons.IH[OF a b] r Suc show ?thesis by auto
  qed
qed


lemma foldl_ffill_length [simp]:
  "length (foldl (\<lambda>d c. ffill_column c PNone d) rows cs) = length rows"
  by (induction cs arbitrary: rows) auto

lemma foldl_ffill_row_length:
  "r < length rows \<Longrightarrow>
   length (foldl (\<lambda>d c. ffill_column c PNone d) rows cs ! r) = length (rows ! r)"
  by (induction cs arbitrary: rows) (auto simp: ffill_column_row_length)

lemma foldl_ffill_other:
  "r < length rows \<Longrightarrow> c \<notin> set cs \<Longrightarrow>
   foldl (\<lambda>d c. ffill_column c PNone d) rows cs ! r ! c = rows ! r ! c"
  by (induction cs arbitrary: rows) (auto simp: ffill_column_other)

lemma foldl_ffill_same:
  "r < length rows \<Longrightarrow> c \<in> set cs \<Longrightarrow> distinct cs \<Longrightarrow> \<forall>row \<in> set rows. c < length row \<Longrightarrow>
   foldl (\<lambda>d c. ffill_column c PNone d) rows cs ! r ! c
     = fill_list PNone (map (\<lambda>row. row ! c) rows) ! r"
proof (induction cs arbitrary: rows)
  case Nil then show ?case by simp
next
  case (Cons c0 cs)
  show ?case
  proof (cases "c = c0")
    case True
    with Cons.prems have "c \<notin> set cs" by simp
    with Cons.prems(1) have "foldl (\<lambda>d c. ffill_column c PNone d) (ffill_column c0 PNone rows) cs ! r ! c
        = ffill_column c0 PNone rows ! r ! c"
      by (intro foldl_ffill_other) auto
    also from Cons.prems(1,4) True have "\<dots> = fill_list PNone (map (\<lambda>row. row ! c) rows) ! r"
      by (simp add: ffill_column_same)
    finally show ?thesis by simp
  next
    case False
    let ?rows' = "ffill_column c0 PNone rows"
    have len: "\<forall>row \<in> set ?rows'. c < length row"
    proof
      fix row assume "row \<in> set ?rows'"
      then obtain i where i: "i < length rows" "row = ?rows' ! i"
        by (auto simp: in_set_conv_nth)
      with Cons.prems(4) show "c < length row" by (simp add: ffill_column_row_length)
    qed
    have same: "map (\<lambda>row. row ! c) ?rows' = map (\<lambda>row. row ! c) rows"
      using False by (intro nth_equalityI) (auto simp: ffill_column_other)
    from False Cons.prems have "c \<in> set cs" "distinct cs" "r < length ?rows'" by auto
    from Cons.IH[OF this(3) this(1) this(2) len] same show ?thesis by simp
  qed
qed

lemma length_le_num_cols: "row \<in> set data \<Longrightarrow> length row \<le> num_cols data"
  by (induction data) (auto simp: num_cols_def)

lemma pad_rows_length [simp]: "length (pad_rows data) = length data"
  by (simp add: pad_rows_def)

lemma pad_rows_row_length: "r < length data \<Longrightarrow> length (pad_rows data ! r) = num_cols data"
  using length_le_num_cols[of "data ! r" data] by (simp add: pad_rows_def)

lemma pad_rows_nth:
  "r < length data \<Longrightarrow> c < num_cols data \<Longrightarrow> pad_rows data ! r ! c = grid_cell data r c"
  by (simp add: pad_rows_def grid_cell_def nth_append)

lemma manual_ffill_column:
  assumes "r < length data" "c < num_cols data"
  shows "manual_ffill data ! r ! c
    = fill_list PNone (map (\<lambda>j. grid_cell data j c) [0..<length data]) ! r"
proof -
  from assms have ne: "data \<noteq> []" by auto
  have "\<forall>row \<in> set (pad_rows data). c < length row"
    using assms(2) by (auto simp: in_set_conv_nth pad_rows_row_length)
  with assms have "manual_ffill data ! r ! c
      = fill_list PNone (map (\<lambda>row. row ! c) (pad_rows data)) ! r"
    using ne by (simp add: manual_ffill_def foldl_ffill_same)
  moreover have "map (\<lambda>row. row ! c) (pad_rows data) = map (\<lambda>j. grid_cell data j c) [0..<length data]"
    using assms(2) by (intro nth_equalityI) (auto simp: pad_rows_nth)
  ultimately show ?thesis by simp
qed

lemma blank_dichotomy:
  "all_blank_above data r c \<or> (\<exists>k. nearest_above data r c k)"
proof (induction r)
  case 0
  then show ?case by (simp add: all_blank_above_def)
next
  case (Suc r)
  show ?case
  proof (cases "blank (grid_cell data r c)")
    case False
    then have "nearest_above data (Suc r) c r" by (simp add: nearest_above_def)
    then show ?thesis by blast
  next
    case True
    from Suc.IH show ?thesis
    proof
      assume "all_blank_above data r c"
      with True have "all_blank_above data (Suc r) c" by (simp add: all_blank_above_def)
      then show ?thesis ..
    next
      assume "\<exists>k. nearest_above data r c k"
      then obtain k where "nearest_above data r c k" ..
      with True have "nearest_above data (Suc r) c k"
        by (auto simp: nearest_above_def list_all_iff less_Suc_eq)
      then show ?thesis by blast
    qed
  qed
qed

text \<open>
  C7: after forward fill, a cell that was not blank is unchanged, and a cell that was
  blank (empty after whitespace stripping; a position missing from a short row counts as
  absent) equals the nearest non-blank cell above it in its column, or is unchanged, hence
  still blank, when no cell above it in the column is non-blank. One of the two cases
  always applies. The filled grid has the rows of the input, each as long as the longest.
\<close>

theorem manual_ffill_nearest_above:
  assumes "r < length data" and "c < num_cols data"
  shows "length (manual_ffill data) = length data \<and>
    length (manual_ffill data ! r) = num_cols data \<and>
    (\<not> blank (grid_cell data r c) \<longrightarrow> manual_ffill data ! r ! c = grid_cell data r c) \<and>
    (blank (grid_cell data r c) \<longrightarrow>
       (\<forall>k. nearest_above data r c k \<longrightarrow> manual_ffill data ! r ! c = grid_cell data k c) \<and>
       (all_blank_above data r c \<longrightarrow> manual_ffill data ! r ! c = grid_cell data r c) \<and>
       (all_blank_above data r c \<or> (\<exists>k. nearest_above data r c k)))"
proof -
  let ?xs = "map (\<lambda>j. grid_cell data j c) [0..<length data]"
  from assms have ne: "data \<noteq> []" by auto
  have out: "manual_ffill data ! r ! c = fill_list PNone ?xs ! r"
    by (rule manual_ffill_column[OF assms])
  have r: "r < length ?xs" "?xs ! r = grid_cell data r c" using assms(1) by auto
  have 1: "length (manual_ffill data) = length data"
    using ne by (simp add: manual_ffill_def)
  have 2: "length (manual_ffill data ! r) = num_cols data"
    using ne assms(1) by (simp add: manual_ffill_def foldl_ffill_row_length pad_rows_row_length)
  have 3: "manual_ffill data ! r ! c = grid_cell data r c" if "\<not> blank (grid_cell data r c)"
    using that r fill_list_nonblank[of r ?xs PNone] out by simp
  have 4: "manual_ffill data ! r ! c = grid_cell data k c"
    if b: "blank (grid_cell data r c)" and n: "nearest_above data r c k" for k
  proof -
    from n have k: "k < r" "\<not> blank (grid_cell data k c)"
      and bl: "\<forall>j. k < j \<and> j < r \<longrightarrow> blank (grid_cell data j c)"
      by (auto simp: nearest_above_def list_all_iff)
    from k assms(1) have xk: "?xs ! k = grid_cell data k c" by simp
    have "\<forall>j. k < j \<and> j \<le> r \<longrightarrow> blank (?xs ! j)"
    proof (intro allI impI)
      fix j assume j: "k < j \<and> j \<le> r"
      with assms(1) have "?xs ! j = grid_cell data j c" by simp
      with j bl b show "blank (?xs ! j)" by (cases "j = r") auto
    qed
    from fill_list_nearest[OF r(1) k(1) _ this, of PNone] k(2) xk out show ?thesis by simp
  qed
  have 5: "manual_ffill data ! r ! c = grid_cell data r c"
    if b: "blank (grid_cell data r c)" and a: "all_blank_above data r c"
  proof -
    have "\<forall>j \<le> r. blank (?xs ! j)"
    proof (intro allI impI)
      fix j assume j: "j \<le> r"
      with assms(1) have "?xs ! j = grid_cell data j c" by simp
      with j a b show "blank (?xs ! j)"
        by (cases "j = r") (auto simp: all_blank_above_def list_all_iff)
    qed
    from fill_list_all_blank[OF r(1) this, of PNone] r(2) out show ?thesis by simp
  qed
  from 1 2 3 4 5 blank_dichotomy[of data r c] show ?thesis by blast
qed

theorem manual_ffill_nearest_above_witness:
  "1 < length example_grid \<and> 0 < num_cols example_grid \<and>
   blank (grid_cell example_grid 1 0) \<and> nearest_above example_grid 1 0 0 \<and>
   manual_ffill example_grid ! 1 ! 0 = PStr [65] \<and>
   1 < num_cols example_grid \<and>
   \<not> blank (grid_cell example_grid 1 1) \<and> manual_ffill example_grid ! 1 ! 1 = PStr [66] \<and>
   0 < length example_grid \<and>
   blank (grid_cell example_grid 0 1) \<and> all_blank_above example_grid 0 1 \<and>
   manual_ffill example_grid ! 0 ! 1 = PNone"
proof -
  have l1: "1 < length example_grid" and l0: "0 < length example_grid"
    by (simp_all add: example_grid_def)
  have n0: "0 < num_cols example_grid" and n1: "1 < num_cols example_grid"
    by (simp_all add: example_grid_def num_cols_def)
  note ev = example_grid_def grid_cell_def blank_def clean_cell_def py_str_def is_space_def
    nearest_above_def all_blank_above_def
  have b10: "blank (grid_cell example_grid 1 0)" by (simp add: ev)
  have na: "nearest_above example_grid 1 0 0" by (simp add: ev)
  have g00: "grid_cell example_grid 0 0 = PStr [65]" by (simp add: ev)
  have nb11: "\<not> blank (grid_cell example_grid 1 1)" by (simp add: ev)
  have g11: "grid_cell example_grid 1 1 = PStr [66]" by (simp add: ev)
  have b01: "blank (grid_cell example_grid 0 1)" by (simp add: ev)
  have ab: "all_blank_above example_grid 0 1" by (simp add: ev)
  have g01: "grid_cell example_grid 0 1 = PNone" by (simp add: ev)
  from manual_ffill_nearest_above[OF l1 n0] b10 na g00
  have r1: "manual_ffill example_grid ! 1 ! 0 = PStr [65]" by metis
  from manual_ffill_nearest_above[OF l1 n1] nb11 g11
  have r2: "manual_ffill example_grid ! 1 ! 1 = PStr [66]" by metis
  from manual_ffill_nearest_above[OF l0 n1] b01 ab g01
  have r3: "manual_ffill example_grid ! 0 ! 1 = PNone" by metis
  show ?thesis by (intro conjI l1 n0 b10 na r1 n1 nb11 r2 l0 b01 ab r3)
qed


section \<open>Properties of the extended-field extractor\<close>

lemma in_rows_from:
  "r' \<in> set (rows_from sheets s r s') \<longleftrightarrow>
     r' \<le> sh_max_row (sheets ! s') \<and> (s' = s \<longrightarrow> r \<le> r') \<and> (s' \<noteq> s \<longrightarrow> 1 \<le> r')"
  by (auto simp: rows_from_def)

lemma bordered_cell_from_iff:
  "bordered_cell_from sheets vli s r \<longleftrightarrow>
     (\<exists>s' r'. s \<le> s' \<and> s' < length sheets \<and> r' \<le> sh_max_row (sheets ! s') \<and>
        (s' = s \<longrightarrow> r \<le> r') \<and> (s' \<noteq> s \<longrightarrow> 1 \<le> r') \<and> value_cell_bordered sheets vli s' r')"
  unfolding bordered_cell_from_def list_ex_iff Bex_def in_rows_from
  by (simp only: set_upt atLeastLessThan_iff) blast

lemma bordered_cell_from_end: "length sheets \<le> s \<Longrightarrow> \<not> bordered_cell_from sheets vli s r"
  by (simp add: bordered_cell_from_def)

lemma bordered_cell_from_next_sheet:
  assumes "s < length sheets" "sh_max_row (sheets ! s) < r"
  shows "bordered_cell_from sheets vli s r = bordered_cell_from sheets vli (s + 1) 1"
proof
  assume "bordered_cell_from sheets vli s r"
  then obtain s' r' where h: "s \<le> s'" "s' < length sheets" "r' \<le> sh_max_row (sheets ! s')"
      "s' = s \<longrightarrow> r \<le> r'" "s' \<noteq> s \<longrightarrow> 1 \<le> r'" "value_cell_bordered sheets vli s' r'"
    unfolding bordered_cell_from_iff by blast
  with assms(2) have ne: "s' \<noteq> s" by auto
  with h have "s + 1 \<le> s'" "1 \<le> r'" by auto
  with h show "bordered_cell_from sheets vli (s + 1) 1"
    unfolding bordered_cell_from_iff by blast
next
  assume "bordered_cell_from sheets vli (s + 1) 1"
  then obtain s' r' where h: "s + 1 \<le> s'" "s' < length sheets" "r' \<le> sh_max_row (sheets ! s')"
      "1 \<le> r'" "value_cell_bordered sheets vli s' r'"
    unfolding bordered_cell_from_iff by blast
  then have "s \<le> s'" "s' \<noteq> s" by auto
  with h show "bordered_cell_from sheets vli s r"
    unfolding bordered_cell_from_iff by blast
qed

lemma bordered_cell_from_next_row:
  assumes "s < length sheets" "r \<le> sh_max_row (sheets ! s)"
  shows "bordered_cell_from sheets vli s r \<longleftrightarrow>
     value_cell_bordered sheets vli s r \<or> bordered_cell_from sheets vli s (r + 1)"
proof
  assume "bordered_cell_from sheets vli s r"
  then obtain s' r' where h: "s \<le> s'" "s' < length sheets" "r' \<le> sh_max_row (sheets ! s')"
      "s' = s \<longrightarrow> r \<le> r'" "s' \<noteq> s \<longrightarrow> 1 \<le> r'" "value_cell_bordered sheets vli s' r'"
    unfolding bordered_cell_from_iff by blast
  show "value_cell_bordered sheets vli s r \<or> bordered_cell_from sheets vli s (r + 1)"
  proof (cases "s' = s \<and> r' = r")
    case True
    with h show ?thesis by simp
  next
    case False
    with h have "s' = s \<longrightarrow> r + 1 \<le> r'" by auto
    with h have "bordered_cell_from sheets vli s (r + 1)"
      unfolding bordered_cell_from_iff by blast
    then show ?thesis ..
  qed
next
  assume "value_cell_bordered sheets vli s r \<or> bordered_cell_from sheets vli s (r + 1)"
  then show "bordered_cell_from sheets vli s r"
  proof
    assume "value_cell_bordered sheets vli s r"
    with assms show ?thesis unfolding bordered_cell_from_iff by blast
  next
    assume "bordered_cell_from sheets vli s (r + 1)"
    then obtain s' r' where h: "s \<le> s'" "s' < length sheets" "r' \<le> sh_max_row (sheets ! s')"
      "s' = s \<longrightarrow> r + 1 \<le> r'" "s' \<noteq> s \<longrightarrow> 1 \<le> r'" "value_cell_bordered sheets vli s' r'"
      unfolding bordered_cell_from_iff by blast
    then have "s' = s \<longrightarrow> r \<le> r'" by auto
    with h show ?thesis unfolding bordered_cell_from_iff by blast
  qed
qed

lemma walk_field_None_iff:
  "fst (walk_field sheets vli s r) = None \<longleftrightarrow> \<not> bordered_cell_from sheets vli s r"
proof (induction sheets vli s r rule: walk_field.induct)
  case (1 sheets vli s r)
  show ?case
  proof (cases "s < length sheets")
    case False
    then show ?thesis
      by (simp add: walk_field.simps[of sheets vli s r] bordered_cell_from_end)
  next
    case s: True
    show ?thesis
    proof (cases "sh_max_row (sheets ! s) < r")
      case True
      with s "1.IH"(1) bordered_cell_from_next_sheet[of s sheets r vli] show ?thesis
        by (simp add: walk_field.simps[of sheets vli s r])
    next
      case r: False
      then have r': "r \<le> sh_max_row (sheets ! s)" by simp
      note step = bordered_cell_from_next_row[OF s r', of vli]
      show ?thesis
      proof (cases "get_absolute_col_from_logical_index_for_row (sheets ! s) r vli")
        case None
        with s r "1.IH"(2) step show ?thesis
          by (simp add: walk_field.simps[of sheets vli s r] value_cell_bordered_def)
      next
        case (Some c)
        show ?thesis
        proof (cases "has_border (cell_at (sheets ! s) r c)")
          case True
          with s r Some step show ?thesis
            by (simp add: walk_field.simps[of sheets vli s r] value_cell_bordered_def)
        next
          case False
          with s r Some "1.IH"(3) step show ?thesis
            by (simp add: walk_field.simps[of sheets vli s r] value_cell_bordered_def)
        qed
      qed
    qed
  qed
qed

lemma extract_fields_other:
  "n \<notin> set names \<Longrightarrow> fst (extract_fields sheets vli names s r ex) n = ex n"
  by (induction names arbitrary: s r ex) (auto split: prod.splits)

lemma extract_fields_dom:
  "dom (fst (extract_fields sheets vli names s r ex)) = dom ex \<union> set names"
  by (induction names arbitrary: s r ex) (auto split: prod.splits)

lemma extract_fields_cursor:
  "snd (extract_fields sheets vli names s r ex) = field_cursor sheets vli (length names) s r"
  by (induction names arbitrary: s r ex) (auto split: prod.splits)

lemma extract_fields_nth:
  "distinct names \<Longrightarrow> i < length names \<Longrightarrow>
   fst (extract_fields sheets vli names s r ex) (names ! i) =
     Some (case fst (case field_cursor sheets vli i s r of (s', r') \<Rightarrow> walk_field sheets vli s' r') of
             None \<Rightarrow> PNone | Some v \<Rightarrow> v)"
proof (induction names arbitrary: s r ex i)
  case Nil then show ?case by simp
next
  case (Cons n names)
  show ?case
  proof (cases i)
    case 0
    with Cons.prems show ?thesis
      by (auto split: prod.splits simp: extract_fields_other)
  next
    case (Suc j)
    with Cons.prems Cons.IH[of j] show ?thesis
      by (auto split: prod.splits)
  qed
qed


lemma walk_field_None_cursor:
  "fst (walk_field sheets vli s r) = None \<Longrightarrow> length sheets \<le> fst (snd (walk_field sheets vli s r))"
proof (induction sheets vli s r rule: walk_field.induct)
  case (1 sheets vli s r)
  show ?case
  proof (cases "s < length sheets")
    case False
    then show ?thesis by (simp add: walk_field.simps[of sheets vli s r])
  next
    case s: True
    show ?thesis
    proof (cases "sh_max_row (sheets ! s) < r")
      case True
      with s "1.IH"(1) "1.prems" show ?thesis
        by (simp add: walk_field.simps[of sheets vli s r])
    next
      case r: False
      show ?thesis
      proof (cases "get_absolute_col_from_logical_index_for_row (sheets ! s) r vli")
        case None
        with s r "1.IH"(2) "1.prems" show ?thesis
          by (simp add: walk_field.simps[of sheets vli s r])
      next
        case (Some c)
        show ?thesis
        proof (cases "has_border (cell_at (sheets ! s) r c)")
          case True
          with s r Some "1.prems" show ?thesis
            by (simp add: walk_field.simps[of sheets vli s r])
        next
          case False
          with s r Some "1.IH"(3) "1.prems" show ?thesis
            by (simp add: walk_field.simps[of sheets vli s r])
        qed
      qed
    qed
  qed
qed

lemma field_cursor_exhausted:
  "\<not> bordered_cell_from sheets vli s r \<Longrightarrow>
   (case field_cursor sheets vli i s r of (s', r') \<Rightarrow> \<not> bordered_cell_from sheets vli s' r')"
proof (induction i arbitrary: s r)
  case 0
  then show ?case by simp
next
  case (Suc i)
  obtain f s' r' where w: "walk_field sheets vli s r = (f, s', r')" by (cases "walk_field sheets vli s r")
  from Suc.prems have "fst (walk_field sheets vli s r) = None" by (simp add: walk_field_None_iff)
  from walk_field_None_cursor[OF this] w have "length sheets \<le> s'" by simp
  then have "\<not> bordered_cell_from sheets vli s' r'" by (rule bordered_cell_from_end)
  from Suc.IH[OF this] w show ?case by simp
qed

lemma field_cursor_add:
  "field_cursor sheets vli (i + j) s r =
     (case field_cursor sheets vli i s r of (s', r') \<Rightarrow> field_cursor sheets vli j s' r')"
  by (induction i arbitrary: s r) (auto split: prod.splits)

lemma exhausted_before_mono:
  assumes "exhausted_before sheets loc i" "i \<le> j"
  shows "exhausted_before sheets loc j"
proof -
  obtain s0 r0 vli where loc: "loc = (s0, r0, vli)" by (cases loc)
  obtain s r where c: "field_cursor sheets vli i s0 (r0 + 1) = (s, r)"
    by (cases "field_cursor sheets vli i s0 (r0 + 1)")
  from assms(1) loc c have "\<not> bordered_cell_from sheets vli s r"
    by (simp add: exhausted_before_def)
  from field_cursor_exhausted[OF this, of "j - i"] assms(2) c loc
    field_cursor_add[of sheets vli i "j - i" s0 "r0 + 1"]
  show ?thesis by (simp add: exhausted_before_def)
qed

lemma field_cursor_stay:
  "length sheets \<le> s \<Longrightarrow> field_cursor sheets vli i s r = (s, r)"
  by (induction i) (auto simp: walk_field.simps[of sheets vli s r])

lemma field_cursor_end:
  assumes "\<not> bordered_cell_from sheets vli s r" "0 < i"
  shows "length sheets \<le> fst (field_cursor sheets vli i s r)"
proof -
  from assms(2) obtain k where i: "i = Suc k" by (cases i) auto
  obtain f s' r' where w: "walk_field sheets vli s r = (f, s', r')" by (cases "walk_field sheets vli s r")
  from assms(1) have "fst (walk_field sheets vli s r) = None" by (simp add: walk_field_None_iff)
  from walk_field_None_cursor[OF this] w have "length sheets \<le> s'" by simp
  with field_cursor_stay[of sheets s' vli k r'] w i show ?thesis by simp
qed

lemma search_additional_end:
  "length sheets \<le> s \<Longrightarrow> search_additional n sheets s r = None"
  by (cases n) auto

lemma distinct_EXTENDED_VAR_NAMES: "distinct EXTENDED_VAR_NAMES"
  by (simp add: EXTENDED_VAR_NAMES_def)

lemma ADDITIONAL_not_EXTENDED: "ADDITIONAL_VAR_NAME \<notin> set EXTENDED_VAR_NAMES"
  by (simp add: EXTENDED_VAR_NAMES_def ADDITIONAL_VAR_NAME_def)

lemma extract_vars_dom:
  "dom (extract_vars_from_anchor loc sheets) = set EXTENDED_VAR_NAMES \<union> {ADDITIONAL_VAR_NAME}"
proof -
  obtain s0 r0 vli where loc: "loc = (s0, r0, vli)" by (cases loc)
  obtain ex s r where e: "extract_fields sheets vli EXTENDED_VAR_NAMES s0 (r0 + 1) Map.empty = (ex, s, r)"
    by (cases "extract_fields sheets vli EXTENDED_VAR_NAMES s0 (r0 + 1) Map.empty")
  from extract_fields_dom[of sheets vli EXTENDED_VAR_NAMES s0 "r0 + 1" Map.empty] e
  have "dom ex = set EXTENDED_VAR_NAMES" by simp
  with loc e show ?thesis by (auto simp: extract_vars_from_anchor_def)
qed

lemma extract_vars_field:
  assumes "i < length EXTENDED_VAR_NAMES"
  shows "extract_vars_from_anchor (s0, r0, vli) sheets (EXTENDED_VAR_NAMES ! i) =
     Some (case fst (case field_cursor sheets vli i s0 (r0 + 1) of (s', r') \<Rightarrow> walk_field sheets vli s' r') of
             None \<Rightarrow> PNone | Some v \<Rightarrow> v)"
proof -
  obtain ex s r where e: "extract_fields sheets vli EXTENDED_VAR_NAMES s0 (r0 + 1) Map.empty = (ex, s, r)"
    by (cases "extract_fields sheets vli EXTENDED_VAR_NAMES s0 (r0 + 1) Map.empty")
  from assms ADDITIONAL_not_EXTENDED have ne: "EXTENDED_VAR_NAMES ! i \<noteq> ADDITIONAL_VAR_NAME"
    by (metis nth_mem)
  from extract_fields_nth[OF distinct_EXTENDED_VAR_NAMES assms, of sheets vli s0 "r0 + 1" Map.empty] e
  have "ex (EXTENDED_VAR_NAMES ! i) =
     Some (case fst (case field_cursor sheets vli i s0 (r0 + 1) of (s', r') \<Rightarrow> walk_field sheets vli s' r') of
             None \<Rightarrow> PNone | Some v \<Rightarrow> v)" by simp
  with e ne show ?thesis by (simp add: extract_vars_from_anchor_def)
qed

text \<open>
  C9: extraction from an anchor always returns a dictionary holding every extended field
  and the additional field. If no bordered value cell is left in the rest of the sheet
  sequence when the walk of a field starts, so that the walk runs to the end of the
  sequence, that field is recorded as \<open>None\<close>, and so are all the later fields and the
  additional field: the extraction goes on to its end.
\<close>

theorem extract_vars_exhausted_absent:
  "dom (extract_vars_from_anchor loc sheets) = set EXTENDED_VAR_NAMES \<union> {ADDITIONAL_VAR_NAME} \<and>
   (\<forall>i j. exhausted_before sheets loc i \<and> i \<le> j \<and> j < length EXTENDED_VAR_NAMES \<longrightarrow>
      extract_vars_from_anchor loc sheets (EXTENDED_VAR_NAMES ! j) = Some PNone) \<and>
   (\<forall>i. exhausted_before sheets loc i \<and> i < length EXTENDED_VAR_NAMES \<longrightarrow>
      extract_vars_from_anchor loc sheets ADDITIONAL_VAR_NAME = Some PNone)"
proof (intro conjI allI impI)
  show "dom (extract_vars_from_anchor loc sheets) = set EXTENDED_VAR_NAMES \<union> {ADDITIONAL_VAR_NAME}"
    by (rule extract_vars_dom)
next
  fix i j
  assume h: "exhausted_before sheets loc i \<and> i \<le> j \<and> j < length EXTENDED_VAR_NAMES"
  obtain s0 r0 vli where loc: "loc = (s0, r0, vli)" by (cases loc)
  from h have ex: "exhausted_before sheets loc j" using exhausted_before_mono by blast
  obtain s r where c: "field_cursor sheets vli j s0 (r0 + 1) = (s, r)"
    by (cases "field_cursor sheets vli j s0 (r0 + 1)")
  from ex loc c have "\<not> bordered_cell_from sheets vli s r" by (simp add: exhausted_before_def)
  then have "fst (walk_field sheets vli s r) = None" by (simp add: walk_field_None_iff)
  with extract_vars_field[of j s0 r0 vli sheets] h c loc
  show "extract_vars_from_anchor loc sheets (EXTENDED_VAR_NAMES ! j) = Some PNone" by simp
next
  fix i
  assume h: "exhausted_before sheets loc i \<and> i < length EXTENDED_VAR_NAMES"
  obtain s0 r0 vli where loc: "loc = (s0, r0, vli)" by (cases loc)
  let ?n = "length EXTENDED_VAR_NAMES"
  obtain si ri where ci: "field_cursor sheets vli i s0 (r0 + 1) = (si, ri)"
    by (cases "field_cursor sheets vli i s0 (r0 + 1)")
  from h loc ci have nb: "\<not> bordered_cell_from sheets vli si ri" by (simp add: exhausted_before_def)
  from h have pos: "0 < ?n - i" by simp
  from h have "field_cursor sheets vli ?n s0 (r0 + 1) = field_cursor sheets vli (?n - i) si ri"
    using field_cursor_add[of sheets vli i "?n - i" s0 "r0 + 1"] ci by simp
  with field_cursor_end[OF nb pos]
  have at_end: "length sheets \<le> fst (field_cursor sheets vli ?n s0 (r0 + 1))" by simp
  obtain ev s r where e: "extract_fields sheets vli EXTENDED_VAR_NAMES s0 (r0 + 1) Map.empty = (ev, s, r)"
    by (cases "extract_fields sheets vli EXTENDED_VAR_NAMES s0 (r0 + 1) Map.empty")
  with extract_fields_cursor[of sheets vli EXTENDED_VAR_NAMES s0 "r0 + 1" Map.empty]
  have "field_cursor sheets vli ?n s0 (r0 + 1) = (s, r)" by simp
  with at_end have "length sheets \<le> s" by simp
  then have "search_additional 10 sheets s r = None" by (rule search_additional_end)
  with loc e show "extract_vars_from_anchor loc sheets ADDITIONAL_VAR_NAME = Some PNone"
    by (simp add: extract_vars_from_anchor_def)
qed

theorem extract_vars_exhausted_absent_witness:
  "exhausted_before [example_annotation_sheet] (0, 1, 2) 1 \<and> (1::nat) \<le> 1 \<and>
   1 < length EXTENDED_VAR_NAMES \<and>
   extract_vars_from_anchor (0, 1, 2) [example_annotation_sheet] (EXTENDED_VAR_NAMES ! 1) = Some PNone \<and>
   extract_vars_from_anchor (0, 1, 2) [example_annotation_sheet] ADDITIONAL_VAR_NAME = Some PNone"
proof -
  have e: "exhausted_before [example_annotation_sheet] (0, 1, 2) 1" by code_simp
  have l: "1 < length EXTENDED_VAR_NAMES" by (simp add: EXTENDED_VAR_NAMES_def)
  have o: "(1::nat) \<le> 1" by simp
  note t = extract_vars_exhausted_absent[of "(0, 1, 2)" "[example_annotation_sheet]"]
  from t e o l
  have a: "extract_vars_from_anchor (0, 1, 2) [example_annotation_sheet] (EXTENDED_VAR_NAMES ! 1) = Some PNone"
    by blast
  from t e l
  have b: "extract_vars_from_anchor (0, 1, 2) [example_annotation_sheet] ADDITIONAL_VAR_NAME = Some PNone"
    by blast
  show ?thesis by (intro conjI e o l a b)
qed


section \<open>Properties of the pairing of base records and anchors\<close>

lemma OCC_not_PROJECT: "OCCURRENCE_KEY \<noteq> PROJECT_NAME"
  by (simp add: OCCURRENCE_KEY_def PROJECT_NAME_def)

lemma cleaned_name_upd_OCC [simp]: "cleaned_name (d(OCCURRENCE_KEY \<mapsto> v)) = cleaned_name d"
  using OCC_not_PROJECT by (simp add: cleaned_name_def dict_get_def)

lemma length_number_records [simp]: "length (number_records nc base) = length base"
  by (induction base arbitrary: nc) (auto simp: Let_def)

lemma counts_get_upd:
  "counts_get (nc(k \<mapsto> v)) n = (if n = k then v else counts_get nc n)"
  by (simp add: counts_get_def)

lemma counts_get_empty [simp]: "counts_get Map.empty n = 0"
  by (simp add: counts_get_def)

lemma number_records_Cons_nth:
  "number_records nc (d # base) ! Suc j =
     number_records (if cleaned_name d \<noteq> [] then nc(cleaned_name d \<mapsto> counts_get nc (cleaned_name d) + 1) else nc)
       base ! j"
  by (simp add: Let_def cleaned_name_def del: fun_upd_apply)

lemma number_records_nth:
  "i < length base \<Longrightarrow>
   number_records nc base ! i =
     (if cleaned_name (base ! i) \<noteq> [] then
        (base ! i)(OCCURRENCE_KEY \<mapsto>
           PNum (counts_get nc (cleaned_name (base ! i))
                 + int (length (filter (\<lambda>d. cleaned_name d = cleaned_name (base ! i)) (take (Suc i) base)))))
      else base ! i)"
proof (induction base arbitrary: nc i)
  case Nil then show ?case by simp
next
  case (Cons d base)
  show ?case
  proof (cases i)
    case 0
    then show ?thesis by (simp add: Let_def cleaned_name_def)
  next
    case (Suc j)
    with Cons.prems have j: "j < length base" by simp
    let ?n = "cleaned_name (base ! j)"
    let ?nc' = "if cleaned_name d \<noteq> [] then nc(cleaned_name d \<mapsto> counts_get nc (cleaned_name d) + 1) else nc"
    have step: "number_records nc (d # base) ! i = number_records ?nc' base ! j"
      unfolding Suc by (rule number_records_Cons_nth)
    have nth: "(d # base) ! i = base ! j" using Suc by simp
    have tk: "take (Suc i) (d # base) = d # take (Suc j) base" using Suc by simp
    note ih = Cons.IH[OF j, of ?nc']
    show ?thesis
    proof (cases "?n = []")
      case True
      with ih have "number_records ?nc' base ! j = base ! j" by (simp del: fun_upd_apply)
      with step nth True show ?thesis by (simp del: fun_upd_apply)
    next
      case ne: False
      have cnt: "counts_get ?nc' ?n + int (length (filter (\<lambda>d. cleaned_name d = ?n) (take (Suc j) base)))
          = counts_get nc ?n + int (length (filter (\<lambda>d. cleaned_name d = ?n) (d # take (Suc j) base)))"
        using ne by (auto simp: counts_get_upd)
      from ih ne have "number_records ?nc' base ! j = (base ! j)(OCCURRENCE_KEY \<mapsto>
           PNum (counts_get ?nc' ?n + int (length (filter (\<lambda>d. cleaned_name d = ?n) (take (Suc j) base)))))"
        by (simp del: fun_upd_apply)
      with step cnt ne show ?thesis
        unfolding nth tk by (simp del: fun_upd_apply)
    qed
  qed
qed

lemma number_records_empty_nth:
  "i < length base \<Longrightarrow>
   number_records Map.empty base ! i =
     (if cleaned_name (base ! i) \<noteq> [] then
        (base ! i)(OCCURRENCE_KEY \<mapsto> PNum (int (occurrence_index base i)))
      else base ! i)"
  by (simp add: number_records_nth occurrence_index_def)


lemma anchors_of_add_anchor:
  "anchors_of (add_anchor p loc am) n = (if n = p then anchors_of am n @ [loc] else anchors_of am n)"
  by (simp add: anchors_of_def add_anchor_def)

lemma anchors_of_fold_rows:
  "anchors_of (fold (\<lambda>r_idx am. case anchor_row sh r_idx of None \<Rightarrow> am
                        | Some project_name \<Rightarrow> add_anchor project_name (idx, r_idx, 2) am) rs am) n
   = anchors_of am n @ map (\<lambda>r. (idx, r, 2)) (filter (\<lambda>r. anchor_row sh r = Some n) rs)"
proof (induction rs arbitrary: am)
  case Nil then show ?case by simp
next
  case (Cons r rs)
  show ?case
    by (cases "anchor_row sh r") (auto simp: Cons.IH anchors_of_add_anchor)
qed

lemma anchors_of_scan_sheet:
  "anchors_of (scan_sheet idx sh am) n
   = anchors_of am n @ map (\<lambda>r. (idx, r, 2)) (filter (\<lambda>r. anchor_row sh r = Some n) [1..<Suc (sh_max_row sh)])"
  unfolding scan_sheet_def by (rule anchors_of_fold_rows)

lemma anchors_of_fold_sheets:
  "anchors_of (fold (\<lambda>(off, sh) am. scan_sheet (start + off) sh am) (enumerate k xs) am) n
   = anchors_of am n @
     concat (map (\<lambda>(off, sh). map (\<lambda>r. (start + off, r, 2))
                    (filter (\<lambda>r. anchor_row sh r = Some n) [1..<Suc (sh_max_row sh)]))
               (enumerate k xs))"
  by (induction xs arbitrary: k am) (simp_all add: anchors_of_scan_sheet)

lemma enumerate_drop_map:
  "map (\<lambda>(off, sh). G (start + off) sh) (enumerate 0 (drop start sheets))
   = map (\<lambda>s. G s (sheets ! s)) [start..<length sheets]"
  by (intro nth_equalityI) (auto simp: nth_enumerate_eq)

lemma anchors_in_scan_order_concat:
  "anchors_in_scan_order sheets start n
   = concat (map (\<lambda>s. map (\<lambda>r. (s, r, 2))
                    (filter (\<lambda>r. anchor_row (sheets ! s) r = Some n) [1..<Suc (sh_max_row (sheets ! s))]))
               [start..<length sheets])"
  unfolding anchors_in_scan_order_def scan_positions_def
  by (simp add: filter_concat map_concat filter_map comp_def)

lemma build_anchor_map_scan_order:
  "anchors_of (build_anchor_map sheets start) n = anchors_in_scan_order sheets start n"
proof -
  have "anchors_of (build_anchor_map sheets start) n =
     concat (map (\<lambda>(off, sh). map (\<lambda>r. (start + off, r, 2))
                    (filter (\<lambda>r. anchor_row sh r = Some n) [1..<Suc (sh_max_row sh)]))
               (enumerate 0 (drop start sheets)))"
    unfolding build_anchor_map_def anchors_of_fold_sheets by (simp add: anchors_of_def)
  also have "\<dots> = anchors_in_scan_order sheets start n"
    unfolding anchors_in_scan_order_concat
    by (rule arg_cong[where f = concat])
       (rule enumerate_drop_map[of "\<lambda>s sh. map (\<lambda>r. (s, r, 2::nat))
                    (filter (\<lambda>r. anchor_row sh r = Some n) [1..<Suc (sh_max_row sh)])" start sheets])
  finally show ?thesis .
qed


lemma fold_upd_fst_other:
  "k \<notin> fst ` set xs \<Longrightarrow> fold (\<lambda>(a, b) d. d(a \<mapsto> F a b)) xs d k = d k"
  by (induction xs arbitrary: d) auto

lemma fold_upd_snd_other:
  "k \<notin> snd ` set xs \<Longrightarrow> fold (\<lambda>(a, b) d. d(b \<mapsto> F a b)) xs d k = d k"
  by (induction xs arbitrary: d) auto

lemma snd_set_enumerate: "snd ` set (enumerate n xs) = set xs"
  by (induction xs arbitrary: n) auto

lemma found_cols_map_keys: "fst ` set (found_cols_map row) \<subseteq> fst ` set COLS_TO_FIND_BY_HEADER"
  by (auto simp: found_cols_map_def split: option.splits) force

lemma row_dict_other:
  assumes "k \<notin> fst ` set COLS_TO_FIND_BY_HEADER" "k \<notin> set HEADERS_TO_FIND"
    "k \<notin> set DATA_COL_NAMES" "k \<noteq> SPECIAL_COL_NAME"
  shows "row_dict sh data_original data_filled (found_cols_map row) hcs i k = None"
proof -
  from assms(1) found_cols_map_keys[of row] have 1: "k \<notin> fst ` set (found_cols_map row)" by blast
  from assms(2) have 2: "k \<notin> snd ` set (enumerate 0 HEADERS_TO_FIND)" by (simp add: snd_set_enumerate)
  from assms(3) have 3: "k \<notin> snd ` set (enumerate 0 DATA_COL_NAMES)" by (simp add: snd_set_enumerate)
  show ?thesis
    unfolding row_dict_def Let_def
    using assms(4) by (simp add: fold_upd_snd_other[OF 3] fold_upd_snd_other[OF 2] fold_upd_fst_other[OF 1])
qed

lemma base_record_no_occurrence_key:
  assumes "d \<in> set (base_extracted_data sh)"
  shows "d OCCURRENCE_KEY = None"
proof -
  have "OCCURRENCE_KEY \<notin> fst ` set COLS_TO_FIND_BY_HEADER" "OCCURRENCE_KEY \<notin> set HEADERS_TO_FIND"
    "OCCURRENCE_KEY \<notin> set DATA_COL_NAMES" "OCCURRENCE_KEY \<noteq> SPECIAL_COL_NAME"
    by (simp_all add: OCCURRENCE_KEY_def COLS_TO_FIND_BY_HEADER_def HEADERS_TO_FIND_def
        DATA_COL_NAMES_def SPECIAL_COL_NAME_def)
  from row_dict_other[OF this] assms show ?thesis
    by (auto simp: base_extracted_data_def Let_def split: option.splits)
qed


lemma anchor_row_nonempty: "anchor_row sh r = Some n \<Longrightarrow> n \<noteq> []"
  by (auto simp: anchor_row_def Let_def split: option.splits if_splits)

lemma anchors_member:
  "loc \<in> set (anchors_in_scan_order sheets start n) \<Longrightarrow>
   \<exists>s r. loc = (s, r, 2) \<and> anchor_row (sheets ! s) r = Some n"
  by (auto simp: anchors_in_scan_order_def)

lemma anchors_of_empty_name: "anchors_in_scan_order sheets start [] = []"
proof (rule ccontr)
  assume "anchors_in_scan_order sheets start [] \<noteq> []"
  then obtain loc where "loc \<in> set (anchors_in_scan_order sheets start [])"
    by (cases "anchors_in_scan_order sheets start []") auto
  from anchors_member[OF this] anchor_row_nonempty show False by blast
qed

lemma distinct_concat_pairs:
  "distinct xs \<Longrightarrow> (\<And>s. distinct (f s)) \<Longrightarrow> distinct (concat (map (\<lambda>s. map (\<lambda>r. (s, r)) (f s)) xs))"
proof (induction xs)
  case Nil then show ?case by simp
next
  case (Cons x xs)
  then show ?case by (auto simp: distinct_map inj_on_def)
qed

lemma distinct_scan_positions: "distinct (scan_positions sheets start)"
  unfolding scan_positions_def by (rule distinct_concat_pairs) simp_all

lemma distinct_anchors: "distinct (anchors_in_scan_order sheets start n)"
  unfolding anchors_in_scan_order_def
  by (auto simp: distinct_map distinct_scan_positions inj_on_def)

lemma occurrence_index_pos: "i < length base \<Longrightarrow> 0 < occurrence_index base i"
proof -
  assume "i < length base"
  then have "base ! i \<in> set (take (Suc i) base)"
    by (metis in_set_conv_nth length_take lessI min_less_iff_conj nth_take)
  then have "base ! i \<in> set (filter (\<lambda>d. cleaned_name d = cleaned_name (base ! i)) (take (Suc i) base))"
    by simp
  then show ?thesis
    unfolding occurrence_index_def by (metis length_pos_if_in_set)
qed

lemma occurrence_index_le:
  "occurrence_index base i \<le> records_named base (cleaned_name (base ! i))"
proof -
  have "base = take (Suc i) base @ drop (Suc i) base" by simp
  then have "filter (\<lambda>d. cleaned_name d = cleaned_name (base ! i)) base
     = filter (\<lambda>d. cleaned_name d = cleaned_name (base ! i)) (take (Suc i) base)
       @ filter (\<lambda>d. cleaned_name d = cleaned_name (base ! i)) (drop (Suc i) base)"
    by (metis filter_append)
  then show ?thesis
    unfolding occurrence_index_def records_named_def
    by (metis le_add1 length_append)
qed

lemma record_anchor_paired:
  assumes i: "i < length base" and noocc: "(base ! i) OCCURRENCE_KEY = None"
  shows "record_anchor (build_anchor_map sheets start) (number_records Map.empty base ! i)
     = paired_anchor base sheets start i"
proof (cases "cleaned_name (base ! i) = []")
  case True
  with i have "number_records Map.empty base ! i = base ! i"
    by (simp add: number_records_empty_nth)
  with noocc have "record_anchor (build_anchor_map sheets start) (number_records Map.empty base ! i) = None"
    by (simp add: record_anchor_def Let_def)
  moreover from True occurrence_index_pos[OF i] have "paired_anchor base sheets start i = None"
    by (simp add: paired_anchor_def Let_def anchors_of_empty_name)
  ultimately show ?thesis by simp
next
  case False
  let ?k = "occurrence_index base i"
  let ?locs = "anchors_in_scan_order sheets start (cleaned_name (base ! i))"
  from False i have n: "number_records Map.empty base ! i
      = (base ! i)(OCCURRENCE_KEY \<mapsto> PNum (int ?k))"
    by (simp add: number_records_empty_nth)
  have cn: "clean_for_matching (dict_get ((base ! i)(OCCURRENCE_KEY \<mapsto> PNum (int ?k))) PROJECT_NAME)
      = cleaned_name (base ! i)"
    using cleaned_name_upd_OCC[of "base ! i"] by (simp add: cleaned_name_def)
  from occurrence_index_pos[OF i] have pos: "1 \<le> int ?k" "nat (int ?k - 1) = ?k - 1" by auto
  show ?thesis
    unfolding n record_anchor_def paired_anchor_def Let_def cn build_anchor_map_scan_order
    using pos by simp
qed

lemma enrich_record_eq:
  assumes "i < length base" and noocc: "(base ! i) OCCURRENCE_KEY = None"
    and ev: "ev OCCURRENCE_KEY = None"
  shows "((number_records Map.empty base ! i ++ ev)(OCCURRENCE_KEY := None)) ++ meta
     = (base ! i ++ ev) ++ meta"
proof (rule ext)
  fix x
  show "(((number_records Map.empty base ! i ++ ev)(OCCURRENCE_KEY := None)) ++ meta) x
     = ((base ! i ++ ev) ++ meta) x"
    using assms by (auto simp: number_records_empty_nth map_add_def split: option.splits)
qed

lemma map_of_const:
  "map_of (map (\<lambda>key. (key, c)) xs) k = (if k \<in> set xs then Some c else None)"
  by (induction xs) auto

lemma absent_vars_dom: "dom absent_vars = set EXTENDED_VAR_NAMES \<union> {ADDITIONAL_VAR_NAME}"
  unfolding absent_vars_def dom_def map_of_const by auto

lemma absent_vars_value:
  "k \<in> set EXTENDED_VAR_NAMES \<union> {ADDITIONAL_VAR_NAME} \<Longrightarrow> absent_vars k = Some PNone"
  unfolding absent_vars_def map_of_const by auto


lemma OCC_not_extended: "OCCURRENCE_KEY \<notin> set EXTENDED_VAR_NAMES \<union> {ADDITIONAL_VAR_NAME}"
  by (simp add: OCCURRENCE_KEY_def EXTENDED_VAR_NAMES_def ADDITIONAL_VAR_NAME_def)

lemma enrich_record_paired:
  assumes i: "i < length base" and noocc: "(base ! i) OCCURRENCE_KEY = None"
    and dom_ex: "\<And>loc. dom (extract_vars_from_anchor loc sheets) = set EXTENDED_VAR_NAMES \<union> {ADDITIONAL_VAR_NAME}"
  shows "enrich_record (build_anchor_map sheets start) sheets meta (number_records Map.empty base ! i)
     = (base ! i ++ (case paired_anchor base sheets start i of
                       Some loc \<Rightarrow> extract_vars_from_anchor loc sheets
                     | None \<Rightarrow> absent_vars)) ++ meta"
proof -
  let ?ev = "case paired_anchor base sheets start i of
               Some loc \<Rightarrow> extract_vars_from_anchor loc sheets | None \<Rightarrow> absent_vars"
  have "dom ?ev = set EXTENDED_VAR_NAMES \<union> {ADDITIONAL_VAR_NAME}"
    by (cases "paired_anchor base sheets start i") (simp_all add: absent_vars_dom dom_ex)
  with OCC_not_extended have "?ev OCCURRENCE_KEY = None" by blast
  with i noocc have "((number_records Map.empty base ! i ++ ?ev)(OCCURRENCE_KEY := None)) ++ meta
     = (base ! i ++ ?ev) ++ meta"
    by (rule enrich_record_eq[where ev = "?ev"])
  then show ?thesis
    unfolding enrich_record_def Let_def record_anchor_paired[OF i noocc] .
qed

lemma unused_anchor:
  assumes j: "records_named base name \<le> j" "j < length (anchors_in_scan_order sheets start name)"
    and i: "i < length base"
  shows "paired_anchor base sheets start i \<noteq> Some (anchors_in_scan_order sheets start name ! j)"
proof
  let ?n = "cleaned_name (base ! i)"
  let ?k = "occurrence_index base i"
  assume eq: "paired_anchor base sheets start i = Some (anchors_in_scan_order sheets start name ! j)"
  then have k: "?k \<le> length (anchors_in_scan_order sheets start ?n)"
    and loc: "anchors_in_scan_order sheets start ?n ! (?k - 1) = anchors_in_scan_order sheets start name ! j"
    by (auto simp: paired_anchor_def Let_def split: if_splits)
  from occurrence_index_pos[OF i] k have k1: "?k - 1 < length (anchors_in_scan_order sheets start ?n)"
    by simp
  then have "anchors_in_scan_order sheets start ?n ! (?k - 1) \<in> set (anchors_in_scan_order sheets start ?n)"
    by simp
  from anchors_member[OF this] obtain s r where
    a: "anchors_in_scan_order sheets start ?n ! (?k - 1) = (s, r, 2)" "anchor_row (sheets ! s) r = Some ?n"
    by blast
  from j(2) have "anchors_in_scan_order sheets start name ! j \<in> set (anchors_in_scan_order sheets start name)"
    by simp
  from anchors_member[OF this] obtain s' r' where
    b: "anchors_in_scan_order sheets start name ! j = (s', r', 2)" "anchor_row (sheets ! s') r' = Some name"
    by blast
  from a b loc have same: "?n = name" by simp
  with loc k1 j(2) distinct_anchors[of sheets start name] have "?k - 1 = j"
    by (simp add: nth_eq_iff_index_eq)
  moreover from occurrence_index_le[of base i] same j(1) have "?k \<le> j" by simp
  ultimately show False using occurrence_index_pos[OF i] by simp
qed

lemma no_merges_starts:
  assumes "merged_cells sh = []"
  shows "get_logical_starts_for_row sh r = [1..<Suc (sh_max_column sh)]"
proof -
  from assms have wf: "row_merges_disjoint sh r" by (simp add: row_merges_disjoint_def)
  from assms have "\<And>c. \<not> inside_earlier_merge sh r c" by (simp add: inside_earlier_merge_def)
  with logical_starts_from_filter[OF wf not_inside_first[OF wf]] show ?thesis
    by (simp add: get_logical_starts_for_row_def)
qed

lemma no_merges_absolute_col:
  assumes "merged_cells sh = []"
  shows "get_absolute_col_from_logical_index_for_row sh r k
     = (if 1 \<le> k \<and> k \<le> sh_max_column sh then Some k else None)"
  unfolding get_absolute_col_from_logical_index_for_row_def no_merges_starts[OF assms] Let_def
  by (auto simp: nth_upt simp del: upt_Suc)

lemma row_dict_project_name:
  "row_dict sh data_original data_filled found_cols hcs i PROJECT_NAME = Some (data_filled ! i ! hcs)"
  by (simp add: row_dict_def Let_def HEADERS_TO_FIND_def DATA_COL_NAMES_def SPECIAL_COL_NAME_def
      PROJECT_NAME_def)

lemma base_cleaned_names:
  assumes "find_header (manual_ffill (sheet_values sh)) = Some (hri, hcs)"
  shows "map cleaned_name (base_extracted_data sh)
     = map (\<lambda>i. clean_for_matching (manual_ffill (sheet_values sh) ! i ! hcs)) (base_row_indices sh)"
  using assms
  by (simp add: base_extracted_data_def Let_def cleaned_name_def dict_get_def row_dict_project_name comp_def)

lemma paired_anchor_names:
  assumes "i < length base"
  shows "paired_anchor base sheets start i =
    (let names = map cleaned_name base;
         locs = anchors_in_scan_order sheets start (names ! i);
         k = length (filter (\<lambda>n. n = names ! i) (take (Suc i) names))
     in if k \<le> length locs then Some (locs ! (k - 1)) else None)"
proof -
  have "length (filter (\<lambda>n. n = cleaned_name (base ! i)) (take (Suc i) (map cleaned_name base)))
      = occurrence_index base i"
    unfolding occurrence_index_def take_map filter_map by (simp add: comp_def)
  with assms show ?thesis by (simp add: paired_anchor_def Let_def)
qed

lemma records_named_names:
  "records_named base n = length (filter (\<lambda>m. m = n) (map cleaned_name base))"
  unfolding records_named_def filter_map by (simp add: comp_def)

text \<open>
  C1: base records and anchors are paired by occurrence index. With the base records in
  the row order of the consolidated table and the anchor locations of each strictly
  normalised project name in scan order, the record that is the \<open>k\<close>-th of its name is
  enriched from the \<open>k\<close>-th anchor location of that name; a record whose occurrence index
  exceeds the number of anchors of its name gets every extended field and the additional
  field as \<open>None\<close> (the extraction returns, it does not fail); and an anchor whose
  position in its name's list is not below the number of records of that name is paired
  with no record.
\<close>

theorem occurrence_pairing:
  assumes "i < length (base_extracted_data sh)"
  shows "length (extract_data_with_extended_vars sh sheets last_idx meta) = length (base_extracted_data sh) \<and>
    extract_data_with_extended_vars sh sheets last_idx meta ! i =
      (base_extracted_data sh ! i ++
         (case paired_anchor (base_extracted_data sh) sheets (last_idx + 1) i of
            Some loc \<Rightarrow> extract_vars_from_anchor loc sheets
          | None \<Rightarrow> absent_vars)) ++ meta \<and>
    (paired_anchor (base_extracted_data sh) sheets (last_idx + 1) i = None \<longrightarrow>
       (\<forall>k. k \<in> set EXTENDED_VAR_NAMES \<union> {ADDITIONAL_VAR_NAME} \<and> k \<notin> dom meta \<longrightarrow>
          (extract_data_with_extended_vars sh sheets last_idx meta ! i) k = Some PNone)) \<and>
    (\<forall>name j. records_named (base_extracted_data sh) name \<le> j \<and>
         j < length (anchors_in_scan_order sheets (last_idx + 1) name) \<longrightarrow>
       (\<forall>i'. i' < length (base_extracted_data sh) \<longrightarrow>
          paired_anchor (base_extracted_data sh) sheets (last_idx + 1) i'
            \<noteq> Some (anchors_in_scan_order sheets (last_idx + 1) name ! j)))"
proof -
  let ?base = "base_extracted_data sh"
  let ?res = "extract_data_with_extended_vars sh sheets last_idx meta"
  from assms have ne: "?base \<noteq> []" by auto
  then have res: "?res = map (enrich_record (build_anchor_map sheets (last_idx + 1)) sheets meta)
                (number_records Map.empty ?base)"
    by (simp add: extract_data_with_extended_vars_def Let_def)
  then have len: "length ?res = length ?base" by simp
  from assms have noocc: "(?base ! i) OCCURRENCE_KEY = None"
    by (intro base_record_no_occurrence_key[of _ sh]) simp
  from res assms have "?res ! i = enrich_record (build_anchor_map sheets (last_idx + 1)) sheets meta
      (number_records Map.empty ?base ! i)" by simp
  also have "\<dots> = (?base ! i ++ (case paired_anchor ?base sheets (last_idx + 1) i of
                       Some loc \<Rightarrow> extract_vars_from_anchor loc sheets
                     | None \<Rightarrow> absent_vars)) ++ meta"
    by (rule enrich_record_paired[OF assms noocc extract_vars_dom])
  finally have nth: "?res ! i = (?base ! i ++ (case paired_anchor ?base sheets (last_idx + 1) i of
                       Some loc \<Rightarrow> extract_vars_from_anchor loc sheets
                     | None \<Rightarrow> absent_vars)) ++ meta" .
  have absent: "(?res ! i) k = Some PNone"
    if "paired_anchor ?base sheets (last_idx + 1) i = None"
      and "k \<in> set EXTENDED_VAR_NAMES \<union> {ADDITIONAL_VAR_NAME} \<and> k \<notin> dom meta" for k
  proof -
    from that(2) have "absent_vars k = Some PNone" by (intro absent_vars_value) simp
    with that nth show ?thesis by (simp add: map_add_def domIff split: option.splits)
  qed
  have unused: "paired_anchor ?base sheets (last_idx + 1) i'
            \<noteq> Some (anchors_in_scan_order sheets (last_idx + 1) name ! j)"
    if "records_named ?base name \<le> j \<and> j < length (anchors_in_scan_order sheets (last_idx + 1) name)"
      and "i' < length ?base" for name j i'
    using that by (intro unused_anchor) auto
  from len nth absent unused show ?thesis by blast
qed

lemma ex_values: "sheet_values example_consolidated_sheet =
  [[PStr [39033, 30446, 21517, 31216], PStr [39033, 30446, 21333, 20301],
   PStr [20027, 31649, 37096, 38376]],
  [PStr [30002], PStr [85], PStr [68]],
  [PStr [30002], PStr [85], PStr [68]],
  [PStr [20057], PStr [85], PStr [68]]]"
  by (simp add: sheet_values_def example_consolidated_sheet_def upt_conv_Cons bordered_cell_def)

lemma ex_filled: "manual_ffill (sheet_values example_consolidated_sheet) = sheet_values example_consolidated_sheet"
  unfolding ex_values
  by (simp add: manual_ffill_def num_cols_def pad_rows_def clean_cell_def py_str_def is_space_def upt_conv_Cons)

lemma ex_header: "find_header (sheet_values example_consolidated_sheet) = Some (0, 0)"
  unfolding ex_values
  by (simp add: find_header_def header_at_def HEADERS_TO_FIND_def clean_cell_def py_str_def is_space_def upt_conv_Cons)

lemma ex_rows: "base_row_indices example_consolidated_sheet = [1, 2, 3]"
  unfolding base_row_indices_def ex_filled Let_def ex_header
  unfolding ex_values
  by (simp add: example_consolidated_sheet_def clean_cell_def py_str_def is_space_def upt_conv_Cons)

lemma ex_header_filled:
  "find_header (manual_ffill (sheet_values example_consolidated_sheet)) = Some (0, 0)"
  by (simp only: ex_filled ex_header)

lemma ex_names: "map cleaned_name (base_extracted_data example_consolidated_sheet)
    = [[30002], [30002], [20057]]"
  unfolding base_cleaned_names[OF ex_header_filled] ex_rows
  by (simp add: ex_filled[unfolded ex_values] ex_filled ex_values clean_for_matching_def py_str_def)

lemma ex_anchor_rows:
  "map (anchor_row example_three_anchors_sheet) [1, 2, 3, 4, 5, 6]
     = [Some [30002], None, Some [30002], None, Some [30002], None]"
  by (simp add: anchor_row_def no_merges_absolute_col example_three_anchors_sheet_def
      plain_cell_def bordered_cell_def empty_cell_def clean_for_matching_def py_str_def PROJECT_NAME_def
      digits_of.simps)

lemma ex_positions: "scan_positions example_original_sheets 1 = [(1, 1), (1, 2), (1, 3), (1, 4), (1, 5), (1, 6)]"
  by (simp add: scan_positions_def example_original_sheets_def example_three_anchors_sheet_def upt_conv_Cons)

lemma ex_anchors_A: "anchors_in_scan_order example_original_sheets 1 [30002] = [(1, 1, 2), (1, 3, 2), (1, 5, 2)]"
  unfolding anchors_in_scan_order_def ex_positions
  using ex_anchor_rows by (simp add: example_original_sheets_def)

lemma ex_anchors_B: "anchors_in_scan_order example_original_sheets 1 [20057] = []"
  unfolding anchors_in_scan_order_def ex_positions
  using ex_anchor_rows by (simp add: example_original_sheets_def)

theorem occurrence_pairing_witness:
  "0 < length (base_extracted_data example_consolidated_sheet) \<and>
   paired_anchor (base_extracted_data example_consolidated_sheet) example_original_sheets 1 0
     = Some (1, 1, 2) \<and>
   extract_data_with_extended_vars example_consolidated_sheet example_original_sheets 0 example_metadata ! 0
     = (base_extracted_data example_consolidated_sheet ! 0
          ++ extract_vars_from_anchor (1, 1, 2) example_original_sheets) ++ example_metadata \<and>
   1 < length (base_extracted_data example_consolidated_sheet) \<and>
   paired_anchor (base_extracted_data example_consolidated_sheet) example_original_sheets 1 1
     = Some (1, 3, 2) \<and>
   extract_data_with_extended_vars example_consolidated_sheet example_original_sheets 0 example_metadata ! 1
     = (base_extracted_data example_consolidated_sheet ! 1
          ++ extract_vars_from_anchor (1, 3, 2) example_original_sheets) ++ example_metadata \<and>
   2 < length (base_extracted_data example_consolidated_sheet) \<and>
   paired_anchor (base_extracted_data example_consolidated_sheet) example_original_sheets 1 2 = None \<and>
   ADDITIONAL_VAR_NAME \<in> set EXTENDED_VAR_NAMES \<union> {ADDITIONAL_VAR_NAME} \<and>
   ADDITIONAL_VAR_NAME \<notin> dom example_metadata \<and>
   (extract_data_with_extended_vars example_consolidated_sheet example_original_sheets 0 example_metadata ! 2)
      ADDITIONAL_VAR_NAME = Some PNone \<and>
   records_named (base_extracted_data example_consolidated_sheet) [30002] \<le> 2 \<and>
   2 < length (anchors_in_scan_order example_original_sheets 1 [30002]) \<and>
   anchors_in_scan_order example_original_sheets 1 [30002] ! 2 = (1, 5, 2) \<and>
   paired_anchor (base_extracted_data example_consolidated_sheet) example_original_sheets 1 1
     \<noteq> Some (1, 5, 2)"
proof -
  let ?base = "base_extracted_data example_consolidated_sheet"
  let ?sheets = "example_original_sheets"
  let ?res = "extract_data_with_extended_vars example_consolidated_sheet ?sheets 0 example_metadata"
  have len: "length ?base = 3"
    using arg_cong[OF ex_names, of length] by simp
  then have l0: "0 < length ?base" and l1: "1 < length ?base" and l2: "2 < length ?base" by simp_all
  have p0: "paired_anchor ?base ?sheets 1 0 = Some (1, 1, 2)"
    unfolding paired_anchor_names[OF l0] ex_names Let_def by (simp add: ex_anchors_A ex_anchors_A[simplified])
  have p1: "paired_anchor ?base ?sheets 1 1 = Some (1, 3, 2)"
    unfolding paired_anchor_names[OF l1] ex_names Let_def by (simp add: ex_anchors_A ex_anchors_A[simplified])
  have p2: "paired_anchor ?base ?sheets 1 2 = None"
    unfolding paired_anchor_names[OF l2] ex_names Let_def by (simp add: ex_anchors_B ex_anchors_B[simplified])
  have rn: "records_named ?base [30002] \<le> 2"
    unfolding records_named_names ex_names by simp
  have la: "2 < length (anchors_in_scan_order ?sheets 1 [30002])" by (simp only: ex_anchors_A) simp
  have a2: "anchors_in_scan_order ?sheets 1 [30002] ! 2 = (1, 5, 2)" by (simp only: ex_anchors_A) simp
  have k1: "ADDITIONAL_VAR_NAME \<in> set EXTENDED_VAR_NAMES \<union> {ADDITIONAL_VAR_NAME}" by simp
  have k2: "ADDITIONAL_VAR_NAME \<notin> dom example_metadata"
    by (simp add: example_metadata_def ADDITIONAL_VAR_NAME_def KEY_YEAR_def KEY_REGION_def KEY_SOURCE_def)
  have one: "(0::nat) + 1 = 1" by simp
  note t0 = occurrence_pairing[OF l0, of ?sheets 0 example_metadata, unfolded one]
  note t1 = occurrence_pairing[OF l1, of ?sheets 0 example_metadata, unfolded one]
  note t2 = occurrence_pairing[OF l2, of ?sheets 0 example_metadata, unfolded one]
  from t0 have "?res ! 0 = (?base ! 0 ++ (case paired_anchor ?base ?sheets 1 0 of
      Some loc \<Rightarrow> extract_vars_from_anchor loc ?sheets | None \<Rightarrow> absent_vars)) ++ example_metadata"
    by blast
  then have r0: "?res ! 0 = (?base ! 0 ++ extract_vars_from_anchor (1, 1, 2) ?sheets) ++ example_metadata"
    by (simp only: p0 option.case)
  from t1 have "?res ! 1 = (?base ! 1 ++ (case paired_anchor ?base ?sheets 1 1 of
      Some loc \<Rightarrow> extract_vars_from_anchor loc ?sheets | None \<Rightarrow> absent_vars)) ++ example_metadata"
    by blast
  then have r1: "?res ! 1 = (?base ! 1 ++ extract_vars_from_anchor (1, 3, 2) ?sheets) ++ example_metadata"
    by (simp only: p1 option.case)
  from t2 p2 k1 k2 have r2: "(?res ! 2) ADDITIONAL_VAR_NAME = Some PNone" by blast
  from t1 rn la l1 have "paired_anchor ?base ?sheets 1 1
      \<noteq> Some (anchors_in_scan_order ?sheets 1 [30002] ! 2)" by blast
  then have u: "paired_anchor ?base ?sheets 1 1 \<noteq> Some (1, 5, 2)" unfolding a2 .
  show ?thesis by (intro conjI l0 p0 r0 l1 p1 r1 l2 p2 k1 k2 r2 rn la a2 u)
qed


section \<open>Properties of the special field\<close>

lemma find_rev_upt_None:
  "find P (rev [1..<Suc n]) = None \<longleftrightarrow> (\<forall>c. 1 \<le> c \<and> c \<le> n \<longrightarrow> \<not> P c)"
  by (auto simp: find_None_iff simp del: upt_Suc)

lemma find_rev_upt_Some:
  "find P (rev [1..<Suc n]) = Some c \<Longrightarrow>
     1 \<le> c \<and> c \<le> n \<and> P c \<and> (\<forall>c'. c < c' \<and> c' \<le> n \<longrightarrow> \<not> P c')"
proof (induction n)
  case 0
  then show ?case by simp
next
  case (Suc n)
  show ?case
  proof (cases "P (Suc n)")
    case True
    with Suc.prems show ?thesis by auto
  next
    case False
    with Suc.prems have "find P (rev [1..<Suc n]) = Some c" by simp
    from Suc.IH[OF this] False show ?thesis
      by (auto simp: le_Suc_eq)
  qed
qed

lemma expected_return_last:
  assumes "last_valued_bordered sh i c"
  shows "expected_return sh i = cvalue (cell_at sh (i + 1) c)"
proof -
  let ?P = "\<lambda>c. has_border (cell_at sh (i + 1) c) \<and> cvalue (cell_at sh (i + 1) c) \<noteq> PNone"
  from assms have c: "1 \<le> c" "c \<le> sh_max_column sh" "?P c"
    and later: "\<forall>c'. c < c' \<and> c' \<le> sh_max_column sh \<longrightarrow> \<not> ?P c'"
    by (auto simp: last_valued_bordered_def valued_bordered_def list_all_iff simp del: upt_Suc)
  from c have "find ?P (rev [1..<Suc (sh_max_column sh)]) \<noteq> None"
    unfolding find_rev_upt_None by blast
  then obtain c0 where f: "find ?P (rev [1..<Suc (sh_max_column sh)]) = Some c0" by blast
  from find_rev_upt_Some[OF f] c later have "c0 = c"
    by (metis linorder_neqE_nat)
  with f show ?thesis by (simp add: expected_return_def)
qed

lemma expected_return_none:
  assumes "no_valued_bordered sh i"
  shows "expected_return sh i = PNone"
proof -
  let ?P = "\<lambda>c. has_border (cell_at sh (i + 1) c) \<and> cvalue (cell_at sh (i + 1) c) \<noteq> PNone"
  from assms have "find ?P (rev [1..<Suc (sh_max_column sh)]) = None"
    unfolding find_rev_upt_None
    by (auto simp: no_valued_bordered_def valued_bordered_def list_all_iff simp del: upt_Suc)
  then show ?thesis by (simp add: expected_return_def)
qed

lemma valued_bordered_dichotomy:
  "no_valued_bordered sh i \<or> (\<exists>c. last_valued_bordered sh i c)"
proof -
  let ?P = "\<lambda>c. has_border (cell_at sh (i + 1) c) \<and> cvalue (cell_at sh (i + 1) c) \<noteq> PNone"
  show ?thesis
  proof (cases "find ?P (rev [1..<Suc (sh_max_column sh)])")
    case None
    then have "no_valued_bordered sh i"
      unfolding find_rev_upt_None
      by (auto simp: no_valued_bordered_def valued_bordered_def list_all_iff simp del: upt_Suc)
    then show ?thesis ..
  next
    case (Some c)
    from find_rev_upt_Some[OF Some] have "last_valued_bordered sh i c"
      by (auto simp: last_valued_bordered_def valued_bordered_def list_all_iff simp del: upt_Suc)
    then show ?thesis by blast
  qed
qed

lemma length_base_extracted_data:
  "length (base_extracted_data sh) = length (base_row_indices sh)"
  by (auto simp: base_extracted_data_def base_row_indices_def Let_def split: option.splits)

lemma base_record_special:
  assumes "j < length (base_row_indices sh)"
  shows "(base_extracted_data sh ! j) SPECIAL_COL_NAME
     = Some (expected_return sh (base_row_indices sh ! j))"
proof (cases "find_header (manual_ffill (sheet_values sh))")
  case None
  with assms show ?thesis by (simp add: base_row_indices_def)
next
  case (Some h)
  obtain hri hcs where h: "h = (hri, hcs)" by (cases h)
  with Some assms show ?thesis
    by (simp add: base_extracted_data_def Let_def row_dict_def)
qed


lemma trailing_values: "sheet_values example_trailing_empty_sheet =
  [[PStr [39033, 30446, 21517, 31216], PStr [39033, 30446, 21333, 20301],
    PStr [20027, 31649, 37096, 38376], PStr [39044, 26399, 24635, 25910, 30410]],
   [PStr [30002], PStr [85], PNum 5, PNone],
   [PStr [20057], PNone, PNone, PNone]]"
  by (simp add: sheet_values_def example_trailing_empty_sheet_def upt_conv_Cons bordered_cell_def
      plain_cell_def empty_cell_def)

lemma trailing_filled: "manual_ffill (sheet_values example_trailing_empty_sheet) =
  [[PStr [39033, 30446, 21517, 31216], PStr [39033, 30446, 21333, 20301],
    PStr [20027, 31649, 37096, 38376], PStr [39044, 26399, 24635, 25910, 30410]],
   [PStr [30002], PStr [85], PNum 5, PStr [39044, 26399, 24635, 25910, 30410]],
   [PStr [20057], PStr [85], PNum 5, PStr [39044, 26399, 24635, 25910, 30410]]]"
  unfolding trailing_values
  by (simp add: manual_ffill_def num_cols_def pad_rows_def clean_cell_def py_str_def is_space_def
      upt_conv_Cons digits_of.simps)

lemma trailing_header:
  "find_header (manual_ffill (sheet_values example_trailing_empty_sheet)) = Some (0, 0)"
  unfolding trailing_filled
  by (simp add: find_header_def header_at_def HEADERS_TO_FIND_def clean_cell_def py_str_def
      is_space_def upt_conv_Cons)

lemma trailing_rows: "base_row_indices example_trailing_empty_sheet = [1, 2]"
  unfolding base_row_indices_def Let_def trailing_header
  unfolding trailing_filled
  by (simp add: example_trailing_empty_sheet_def clean_cell_def py_str_def is_space_def upt_conv_Cons)

lemma trailing_last_valued: "last_valued_bordered example_trailing_empty_sheet 1 3"
  by (simp add: last_valued_bordered_def valued_bordered_def example_trailing_empty_sheet_def
      has_border_def side_styled_def bordered_cell_def upt_conv_Cons)

lemma trailing_no_valued: "no_valued_bordered example_trailing_empty_sheet 2"
  by (simp add: no_valued_bordered_def valued_bordered_def example_trailing_empty_sheet_def
      has_border_def side_styled_def plain_cell_def empty_cell_def upt_conv_Cons)

lemma trailing_last_bordered: "last_bordered_value example_trailing_empty_sheet 1 = PNone"
  by (simp add: last_bordered_value_def example_trailing_empty_sheet_def
      has_border_def side_styled_def bordered_cell_def upt_conv_Cons)

lemma trailing_cell: "cvalue (cell_at example_trailing_empty_sheet (1 + 1) 3) = PNum 5"
  by (simp add: example_trailing_empty_sheet_def bordered_cell_def)


text \<open>
  C8, as the code has it: for every base data row of the consolidated table, the special
  field is the value of the last cell of the row that has a border and a value other than
  \<open>None\<close>, scanning the columns from the sheet's maximum column down to 1; bordered cells
  without a value are passed over, and the field is \<open>None\<close> when the row has no such
  cell. One of the two cases always applies.
\<close>

theorem special_field_last_valued_bordered:
  assumes "j < length (base_row_indices sh)"
  shows "length (base_extracted_data sh) = length (base_row_indices sh) \<and>
    (\<forall>c. last_valued_bordered sh (base_row_indices sh ! j) c \<longrightarrow>
       (base_extracted_data sh ! j) SPECIAL_COL_NAME
         = Some (cvalue (cell_at sh (base_row_indices sh ! j + 1) c))) \<and>
    (no_valued_bordered sh (base_row_indices sh ! j) \<longrightarrow>
       (base_extracted_data sh ! j) SPECIAL_COL_NAME = Some PNone) \<and>
    (no_valued_bordered sh (base_row_indices sh ! j) \<or>
       (\<exists>c. last_valued_bordered sh (base_row_indices sh ! j) c))"
  using base_record_special[OF assms] expected_return_last expected_return_none
    valued_bordered_dichotomy length_base_extracted_data
  by metis

theorem special_field_last_valued_bordered_witness:
  "0 < length (base_row_indices example_trailing_empty_sheet) \<and>
   last_valued_bordered example_trailing_empty_sheet (base_row_indices example_trailing_empty_sheet ! 0) 3 \<and>
   (base_extracted_data example_trailing_empty_sheet ! 0) SPECIAL_COL_NAME = Some (PNum 5) \<and>
   1 < length (base_row_indices example_trailing_empty_sheet) \<and>
   no_valued_bordered example_trailing_empty_sheet (base_row_indices example_trailing_empty_sheet ! 1) \<and>
   (base_extracted_data example_trailing_empty_sheet ! 1) SPECIAL_COL_NAME = Some PNone"
proof -
  let ?sh = "example_trailing_empty_sheet"
  have l0: "0 < length (base_row_indices ?sh)" and l1: "1 < length (base_row_indices ?sh)"
    by (simp_all add: trailing_rows)
  have i0: "base_row_indices ?sh ! 0 = 1" and i1: "base_row_indices ?sh ! 1 = 2"
    by (simp_all add: trailing_rows)
  have a: "last_valued_bordered ?sh (base_row_indices ?sh ! 0) 3"
    unfolding i0 by (rule trailing_last_valued)
  have b: "no_valued_bordered ?sh (base_row_indices ?sh ! 1)"
    unfolding i1 by (rule trailing_no_valued)
  from special_field_last_valued_bordered[OF l0] a
  have "(base_extracted_data ?sh ! 0) SPECIAL_COL_NAME
      = Some (cvalue (cell_at ?sh (base_row_indices ?sh ! 0 + 1) 3))" by blast
  then have r0: "(base_extracted_data ?sh ! 0) SPECIAL_COL_NAME = Some (PNum 5)"
    unfolding i0 trailing_cell .
  from special_field_last_valued_bordered[OF l1] b
  have r1: "(base_extracted_data ?sh ! 1) SPECIAL_COL_NAME = Some PNone" by blast
  show ?thesis by (intro conjI l0 a r0 l1 b r1)
qed


text \<open>
  C8 as stated fails: in the example table the last bordered cell of the first data row
  holds no value, and the special field of the record is the value 5 of the bordered cell
  to its left, not the (absent) value of the last bordered cell.
\<close>

theorem special_field_counterexample:
  "base_row_indices example_trailing_empty_sheet ! 0 = 1 \<and>
   (base_extracted_data example_trailing_empty_sheet ! 0) SPECIAL_COL_NAME = Some (PNum 5) \<and>
   last_bordered_value example_trailing_empty_sheet 1 = PNone \<and>
   (base_extracted_data example_trailing_empty_sheet ! 0) SPECIAL_COL_NAME
     \<noteq> Some (last_bordered_value example_trailing_empty_sheet 1)"
proof -
  let ?sh = "example_trailing_empty_sheet"
  have i0: "base_row_indices ?sh ! 0 = 1" by (simp add: trailing_rows)
  have l0: "0 < length (base_row_indices ?sh)" by (simp add: trailing_rows)
  have "expected_return ?sh 1 = PNum 5"
    using expected_return_last[OF trailing_last_valued] trailing_cell by simp
  with base_record_special[OF l0] i0
  have r0: "(base_extracted_data ?sh ! 0) SPECIAL_COL_NAME = Some (PNum 5)" by simp
  then have ne: "(base_extracted_data ?sh ! 0) SPECIAL_COL_NAME \<noteq> Some (last_bordered_value ?sh 1)"
    unfolding trailing_last_bordered by simp
  show ?thesis by (intro conjI i0 r0 trailing_last_bordered ne)
qed


section \<open>Properties of the consolidator and of a run\<close>

subsection \<open>Continuation walk and stacking\<close>




lemma write_tables_Nil [simp]: "write_tables sheets [] st = st"
  by (simp add: write_tables_def)

lemma write_tables_Cons:
  "write_tables sheets ((idx, rg) # tables) (d, n) =
     write_tables sheets tables (copy_range (sheets ! idx) d rg n 1, n + range_height rg)"
  by (simp add: write_tables_def)

lemma write_tables_next_row:
  "snd (write_tables sheets tables (d, n)) = n + sum_list (map (\<lambda>t. range_height (snd t)) tables)"
proof (induction tables arbitrary: d n)
  case Nil then show ?case by simp
next
  case (Cons t tables)
  obtain idx rg where t: "t = (idx, rg)" by (cases t)
  show ?case unfolding t write_tables_Cons Cons.IH by simp
qed





subsection \<open>The example sheets\<close>

lemma page_bordered: "has_border (cell_at example_page r c) \<longleftrightarrow> 2 \<le> r \<and> r \<le> 10 \<and> 2 \<le> c \<and> c \<le> 6"
  by (simp add: example_page_def has_border_def side_styled_def bordered_cell_def plain_cell_def empty_cell_def)

lemma page_dims: "sh_max_row example_page = 10" "sh_max_column example_page = 6"
  by (simp_all add: example_page_def)

lemma page_positions: "bordered_positions example_page =
   concat (map (\<lambda>r. map (\<lambda>c. (r, c)) [2..<7]) [2..<11])"
  unfolding bordered_positions_def page_dims
  by (simp add: page_bordered upt_conv_Cons)

lemma page_range: "find_border_range_in_sheet example_page = Some B2_F10"
  unfolding find_border_range_in_sheet_def page_positions
  by (simp add: upt_conv_Cons extend_range_def B2_F10_def)

lemma border_cells: "has_border (bordered_cell v)" "\<not> has_border (plain_cell v)" "\<not> has_border empty_cell"
  by (simp_all add: has_border_def side_styled_def bordered_cell_def plain_cell_def empty_cell_def)

lemma title_search_title: "title_search TITLE_WORDS"
  by (simp add: title_search_def TITLE_WORDS_def upt_conv_Cons)

lemma truthy_title: "truthy (PStr TITLE_WORDS)" "clean_cell (PStr TITLE_WORDS) = TITLE_WORDS"
  by (simp_all add: truthy_def TITLE_WORDS_def clean_cell_def py_str_def is_space_def)

lemma cover_matches: "sheet_matches title_search 3 example_cover"
  by (simp add: sheet_matches_def example_cover_def plain_cell_def truthy_title title_search_title)

lemma cover_range: "find_border_range_in_sheet example_cover = None"
  by (simp add: find_border_range_in_sheet_def bordered_positions_def example_cover_def border_cells)

lemma cover_consolidate: "consolidate_tables_from_group [example_cover] title_search 3 = Inl NoTableFound"
  by (simp add: consolidate_tables_from_group_def matched_sheets_def cover_matches final_tables_def
      cover_range Let_def)

lemma page_matches: "sheet_matches title_search 3 example_page"
  unfolding sheet_matches_def page_dims
  by (simp add: upt_conv_Cons example_page_def plain_cell_def truthy_title title_search_title)

lemma report_dims: "sh_max_row example_report_sheet = 3" "sh_max_column example_report_sheet = 3"
  by (simp_all add: example_report_sheet_def)

lemma report_matches: "sheet_matches title_search 3 example_report_sheet"
  unfolding sheet_matches_def report_dims
  by (simp add: upt_conv_Cons example_report_sheet_def plain_cell_def truthy_title title_search_title)

lemma report_positions:
  "bordered_positions example_report_sheet = [(2, 1), (2, 2), (2, 3), (3, 1), (3, 2), (3, 3)]"
  unfolding bordered_positions_def report_dims
  by (simp add: upt_conv_Cons example_report_sheet_def border_cells)

lemma report_range: "find_border_range_in_sheet example_report_sheet = Some A2_C3"
  unfolding find_border_range_in_sheet_def report_positions
  by (simp add: extend_range_def A2_C3_def)

lemma report_tables: "final_tables [example_report_sheet] [0] = [(0, A2_C3)]"
  by (simp add: final_tables_def report_range continuation_walk.simps)

lemma report_consolidate:
  "consolidate_tables_from_group [example_report_sheet] title_search 3
     = Inr (example_report_consolidated, 0)"
  by (simp add: consolidate_tables_from_group_def matched_sheets_def report_matches report_tables
      Let_def write_tables_def example_report_consolidated_def)

lemma report_copy_dims:
  "sh_max_row example_report_consolidated = 2"
  "sh_max_column example_report_consolidated = 3"
  by (simp_all add: example_report_consolidated_def copy_range_def A2_C3_def range_height_def range_width_def new_sheet_def)

lemma report_copy_values:
  "sheet_values example_report_consolidated =
     [[PStr [39033, 30446, 21517, 31216], PStr [39033, 30446, 21333, 20301], PStr [20027, 31649, 37096, 38376]],
      [PStr [30002], PStr [85], PStr [68]]]"
  unfolding sheet_values_def report_copy_dims
  by (simp add: example_report_consolidated_def copy_range_def A2_C3_def range_height_def range_width_def
      upt_conv_Cons copy_cell_def example_report_sheet_def bordered_cell_def)

lemma report_copy_filled:
  "manual_ffill (sheet_values example_report_consolidated) =
     [[PStr [39033, 30446, 21517, 31216], PStr [39033, 30446, 21333, 20301], PStr [20027, 31649, 37096, 38376]],
      [PStr [30002], PStr [85], PStr [68]]]"
  unfolding report_copy_values
  by (simp add: manual_ffill_def num_cols_def pad_rows_def clean_cell_def py_str_def is_space_def upt_conv_Cons)

lemma report_copy_header:
  "find_header (manual_ffill (sheet_values example_report_consolidated)) = Some (0, 0)"
  unfolding report_copy_filled
  by (simp add: find_header_def header_at_def HEADERS_TO_FIND_def clean_cell_def py_str_def is_space_def upt_conv_Cons)

lemma report_copy_rows: "base_row_indices example_report_consolidated = [1]"
  unfolding base_row_indices_def Let_def report_copy_header
  unfolding report_copy_filled report_copy_dims
  by (simp add: clean_cell_def py_str_def is_space_def upt_conv_Cons)

lemma length_extract_data:
  "length (extract_data_with_extended_vars sh sheets last_idx meta) = length (base_row_indices sh)"
  by (auto simp: extract_data_with_extended_vars_def Let_def base_extracted_data_def base_row_indices_def
      split: option.splits)

lemma report_enriched: "enriched_data_of_group example_input [[97]] \<noteq> []"
proof -
  have "length (enriched_data_of_group example_input [[97]]) = 1"
    by (simp add: enriched_data_of_group_def example_input_def report_consolidate length_extract_data
        report_copy_rows)
  then show ?thesis by auto
qed

lemma cover_enriched: "enriched_data_of_group example_input [[98]] = []"
  by (simp add: enriched_data_of_group_def example_input_def cover_consolidate)

subsection \<open>Runs of the pipeline\<close>

lemma log_append:
  "load_processed_log_from_excel (append_data_and_log_to_excel out df gid)
     = insert gid (load_processed_log_from_excel out)"
  by (cases out) (auto simp: load_processed_log_from_excel_def append_data_and_log_to_excel_def Let_def)

lemma log_process_group:
  "load_processed_log_from_excel (process_group inp P g out)
     = load_processed_log_from_excel out \<union>
       (if hd g \<notin> P \<and> enriched_data_of_group inp g \<noteq> [] then {hd g} else {})"
  by (simp add: process_group_def Let_def log_append)

lemma log_fold:
  "load_processed_log_from_excel (fold (process_group inp P) gs out)
     = load_processed_log_from_excel out \<union>
       {hd g | g. g \<in> set gs \<and> hd g \<notin> P \<and> enriched_data_of_group inp g \<noteq> []}"
proof (induction gs arbitrary: out)
  case Nil then show ?case by simp
next
  case (Cons g gs)
  show ?case
    unfolding fold_Cons comp_def Cons.IH log_process_group by auto
qed

lemma log_main:
  "load_processed_log_from_excel (main inp out)
     = load_processed_log_from_excel out \<union>
       {hd g | g. g \<in> set (excel_file_groups inp) \<and> hd g \<notin> load_processed_log_from_excel out
                  \<and> enriched_data_of_group inp g \<noteq> []}"
  unfolding main_def by (rule log_fold)

lemma fold_unchanged:
  "(\<And>x s. x \<in> set xs \<Longrightarrow> f x s = s) \<Longrightarrow> fold f xs s = s"
  by (induction xs arbitrary: s) auto

lemma second_run_group:
  assumes "g \<in> set (excel_file_groups inp)"
  shows "process_group inp (load_processed_log_from_excel (main inp out)) g f = f"
proof (cases "hd g \<in> load_processed_log_from_excel (main inp out)")
  case True
  then show ?thesis by (simp add: process_group_def)
next
  case False
  with assms have "enriched_data_of_group inp g = []"
    unfolding log_main by blast
  then show ?thesis by (simp add: process_group_def Let_def)
qed

lemma main_idempotent: "main inp (main inp out) = main inp out"
  unfolding main_def[of inp "main inp out"]
  by (rule fold_unchanged) (rule second_run_group)

lemma committed_is_skipped:
  assumes "g \<in> set (excel_file_groups inp)"
    and "hd g \<in> load_processed_log_from_excel out \<or> enriched_data_of_group inp g \<noteq> []"
  shows "g \<in> set (skipped_groups inp (main inp out))"
  using assms unfolding skipped_groups_def log_main by auto

lemma not_skipped_yields_nothing:
  assumes "g \<in> set (excel_file_groups inp)" and "g \<notin> set (skipped_groups inp (main inp out))"
  shows "enriched_data_of_group inp g = []"
  using assms unfolding skipped_groups_def log_main by auto

text \<open>
  C5, as the code has it: a second run on the same unchanged input directory leaves the
  output file as the first run left it. In the second run every group that is in the log
  (logged before the first run, or committed by it because it yielded records) is
  skipped; a group that is not skipped is one that yielded no record in the first run: it
  is processed again, yields no record again, and leaves the output file unchanged.
\<close>

theorem second_run_identical:
  "main inp (main inp out) = main inp out \<and>
   (\<forall>g. g \<in> set (excel_file_groups inp) \<and>
        (hd g \<in> load_processed_log_from_excel out \<or> enriched_data_of_group inp g \<noteq> []) \<longrightarrow>
        g \<in> set (skipped_groups inp (main inp out))) \<and>
   (\<forall>g f. g \<in> set (excel_file_groups inp) \<and> g \<notin> set (skipped_groups inp (main inp out)) \<longrightarrow>
        enriched_data_of_group inp g = [] \<and>
        process_group inp (load_processed_log_from_excel (main inp out)) g f = f)"
  using main_idempotent committed_is_skipped not_skipped_yields_nothing second_run_group
  by blast

lemma example_groups: "excel_file_groups example_input = [[[97]], [[98]]]"
  by (simp add: example_input_def)

lemma example_log: "load_processed_log_from_excel (main example_input None) = {[97]}"
proof -
  have "{hd g | g. g \<in> set [[[97]], [[98]]] \<and> hd g \<notin> {}
           \<and> enriched_data_of_group example_input g \<noteq> []} = {[97::nat]}"
    using report_enriched cover_enriched by (auto intro: exI[of _ "[[97]]"])
  then show ?thesis
    unfolding log_main example_groups by (simp add: load_processed_log_from_excel_def)
qed

lemma example_skipped: "skipped_groups example_input (main example_input None) = [[[97]]]"
  unfolding skipped_groups_def example_log example_groups by simp

theorem second_run_identical_witness:
  "[[97]] \<in> set (excel_file_groups example_input) \<and>
   enriched_data_of_group example_input [[97]] \<noteq> [] \<and>
   [[97]] \<in> set (skipped_groups example_input (main example_input None)) \<and>
   [[98]] \<in> set (excel_file_groups example_input) \<and>
   [[98]] \<notin> set (skipped_groups example_input (main example_input None)) \<and>
   enriched_data_of_group example_input [[98]] = [] \<and>
   process_group example_input (load_processed_log_from_excel (main example_input None)) [[98]] None = None \<and>
   main example_input (main example_input None) = main example_input None"
proof -
  note t = second_run_identical[of example_input None]
  have g1: "[[97]] \<in> set (excel_file_groups example_input)"
    and g2: "[[98]] \<in> set (excel_file_groups example_input)" by (simp_all add: example_groups)
  have ns: "[[98]] \<notin> set (skipped_groups example_input (main example_input None))"
    by (simp add: example_skipped)
  from t g1 report_enriched
  have s1: "[[97]] \<in> set (skipped_groups example_input (main example_input None))" by blast
  from t g2 ns have e2: "enriched_data_of_group example_input [[98]] = []" by blast
  from t g2 ns
  have p2: "process_group example_input (load_processed_log_from_excel (main example_input None)) [[98]] None = None"
    by blast
  from t have idem: "main example_input (main example_input None) = main example_input None" by blast
  show ?thesis by (intro conjI g1 report_enriched s1 g2 ns e2 p2 idem)
qed

text \<open>
  C5 as stated fails: a group whose consolidation fails is never written to the log, so
  the second run does not skip it. In the example input the second group is discovered
  and is not among the groups the second run skips.
\<close>

theorem second_run_skips_all_counterexample:
  "[[98]] \<in> set (excel_file_groups example_input) \<and>
   [[98]] \<notin> set (skipped_groups example_input (main example_input None)) \<and>
   skipped_groups example_input (main example_input None) \<noteq> excel_file_groups example_input"
  by (simp add: example_skipped example_groups)

subsection \<open>The first title-matching sheet\<close>

lemma final_tables_empty_iff:
  "final_tables sheets matched = [] \<longleftrightarrow>
     list_all (\<lambda>i. find_border_range_in_sheet (sheets ! i) = None) matched"
proof (cases "find (\<lambda>i. find_border_range_in_sheet (sheets ! i) \<noteq> None) matched")
  case None
  then have "\<forall>i \<in> set matched. find_border_range_in_sheet (sheets ! i) = None"
    unfolding find_None_iff by blast
  then have "list_all (\<lambda>i. find_border_range_in_sheet (sheets ! i) = None) matched"
    by (simp add: list_all_iff)
  moreover have "final_tables sheets matched = []"
    unfolding final_tables_def None by simp
  ultimately show ?thesis by simp
next
  case (Some index)
  then have m: "index \<in> set matched" and b: "find_border_range_in_sheet (sheets ! index) \<noteq> None"
    unfolding find_Some_iff by auto
  from b obtain rng where rng: "find_border_range_in_sheet (sheets ! index) = Some rng" by blast
  have "final_tables sheets matched \<noteq> []"
    unfolding final_tables_def Some by (simp add: rng)
  moreover from m b have "\<not> list_all (\<lambda>i. find_border_range_in_sheet (sheets ! i) = None) matched"
    by (auto simp: list_all_iff)
  ultimately show ?thesis by simp
qed

lemma final_tables_first:
  assumes "first_bordered_match sheets matched index"
    and "find_border_range_in_sheet (sheets ! index) = Some rng"
  shows "final_tables sheets matched = (index, rng) # continuation_walk sheets rng (index + 1)"
  using assms by (simp add: final_tables_def first_bordered_match_def)

lemma consolidate_no_table_iff:
  "consolidate_tables_from_group sheets regex limit = Inl NoTableFound \<longleftrightarrow>
     matched_sheets regex limit sheets \<noteq> [] \<and>
     list_all (\<lambda>i. find_border_range_in_sheet (sheets ! i) = None) (matched_sheets regex limit sheets)"
  by (auto simp: consolidate_tables_from_group_def Let_def final_tables_empty_iff)

lemma consolidate_Inr_iff:
  "consolidate_tables_from_group sheets regex limit = Inr (dest, last_idx) \<longleftrightarrow>
     final_tables sheets (matched_sheets regex limit sheets) \<noteq> [] \<and>
     dest = fst (write_tables sheets (final_tables sheets (matched_sheets regex limit sheets)) (new_sheet, 1)) \<and>
     last_idx = fst (last (final_tables sheets (matched_sheets regex limit sheets)))"
proof -
  have "final_tables sheets [] = []" by (simp add: final_tables_def)
  then show ?thesis
    by (auto simp: consolidate_tables_from_group_def Let_def)
qed

lemma failed_group_unchanged:
  assumes "load_sheets inp g = Some sheets"
    and "consolidate_tables_from_group sheets title_search 3 = Inl e"
  shows "process_group inp P g out = out"
  using assms by (simp add: process_group_def enriched_data_of_group_def Let_def)

text \<open>
  C2, as the code has it: consolidation fails with \<open>NoTableFound\<close> exactly when some sheet
  matches the title and no title-matching sheet has a border range. A title-matching
  sheet without a border range is passed over: the first title-matching sheet that has a
  border range starts the one consolidated run, with its continuation walk, and
  consolidation succeeds. A group whose consolidation fails is left as it was: nothing
  is appended and nothing is logged.
\<close>

theorem consolidation_first_bordered_match:
  "(consolidate_tables_from_group sheets regex limit = Inl NoTableFound \<longleftrightarrow>
      matched_sheets regex limit sheets \<noteq> [] \<and>
      list_all (\<lambda>i. find_border_range_in_sheet (sheets ! i) = None) (matched_sheets regex limit sheets)) \<and>
   (\<forall>index rng. first_bordered_match sheets (matched_sheets regex limit sheets) index \<and>
        find_border_range_in_sheet (sheets ! index) = Some rng \<longrightarrow>
        final_tables sheets (matched_sheets regex limit sheets)
          = (index, rng) # continuation_walk sheets rng (index + 1) \<and>
        (\<exists>dest last_idx. consolidate_tables_from_group sheets regex limit = Inr (dest, last_idx))) \<and>
   (\<forall>(inp :: input_dir) g e P out. load_sheets inp g = Some sheets \<and>
        consolidate_tables_from_group sheets title_search 3 = Inl e \<longrightarrow>
        process_group inp P g out = out)"
proof (intro conjI allI impI)
  show "consolidate_tables_from_group sheets regex limit = Inl NoTableFound \<longleftrightarrow>
      matched_sheets regex limit sheets \<noteq> [] \<and>
      list_all (\<lambda>i. find_border_range_in_sheet (sheets ! i) = None) (matched_sheets regex limit sheets)"
    by (rule consolidate_no_table_iff)
next
  fix index rng
  assume h: "first_bordered_match sheets (matched_sheets regex limit sheets) index \<and>
        find_border_range_in_sheet (sheets ! index) = Some rng"
  then show t: "final_tables sheets (matched_sheets regex limit sheets)
          = (index, rng) # continuation_walk sheets rng (index + 1)"
    by (intro final_tables_first) auto
  then have "final_tables sheets (matched_sheets regex limit sheets) \<noteq> []" by simp
  then show "\<exists>dest last_idx. consolidate_tables_from_group sheets regex limit = Inr (dest, last_idx)"
    unfolding consolidate_Inr_iff by blast
next
  fix inp :: input_dir and g e P out
  assume "load_sheets inp g = Some sheets \<and> consolidate_tables_from_group sheets title_search 3 = Inl e"
  then show "process_group inp P g out = out"
    using failed_group_unchanged by blast
qed

lemma cover_page_matched: "matched_sheets title_search 3 [example_cover, example_page] = [0, 1]"
  by (simp add: matched_sheets_def cover_matches page_matches upt_conv_Cons)

lemma cover_matched: "matched_sheets title_search 3 [example_cover] = [0]"
  by (simp add: matched_sheets_def cover_matches)

lemma cover_page_first: "first_bordered_match [example_cover, example_page] [0, 1] 1"
  by (simp add: first_bordered_match_def cover_range page_range)

lemma cover_page_walk: "continuation_walk [example_cover, example_page] B2_F10 (1 + 1) = []"
  by (simp add: continuation_walk.simps)

theorem consolidation_first_bordered_match_witness:
  "matched_sheets title_search 3 [example_cover] \<noteq> [] \<and>
   list_all (\<lambda>i. find_border_range_in_sheet ([example_cover] ! i) = None)
     (matched_sheets title_search 3 [example_cover]) \<and>
   consolidate_tables_from_group [example_cover] title_search 3 = Inl NoTableFound \<and>
   first_bordered_match [example_cover, example_page]
     (matched_sheets title_search 3 [example_cover, example_page]) 1 \<and>
   find_border_range_in_sheet ([example_cover, example_page] ! 1) = Some B2_F10 \<and>
   final_tables [example_cover, example_page] (matched_sheets title_search 3 [example_cover, example_page])
     = [(1, B2_F10)] \<and>
   load_sheets example_input [[98]] = Some [example_cover] \<and>
   process_group example_input {} [[98]] None = None"
proof -
  have a: "matched_sheets title_search 3 [example_cover] \<noteq> []" by (simp add: cover_matched)
  have b: "list_all (\<lambda>i. find_border_range_in_sheet ([example_cover] ! i) = None)
     (matched_sheets title_search 3 [example_cover])"
    by (simp add: cover_matched cover_range)
  note t1 = consolidation_first_bordered_match[of "[example_cover]" title_search 3]
  from t1 a b have c: "consolidate_tables_from_group [example_cover] title_search 3 = Inl NoTableFound"
    by blast
  have d: "first_bordered_match [example_cover, example_page]
     (matched_sheets title_search 3 [example_cover, example_page]) 1"
    unfolding cover_page_matched by (rule cover_page_first)
  have e: "find_border_range_in_sheet ([example_cover, example_page] ! 1) = Some B2_F10"
    by (simp add: page_range)
  note t2 = consolidation_first_bordered_match[of "[example_cover, example_page]" title_search 3]
  from t2 d e
  have "final_tables [example_cover, example_page] (matched_sheets title_search 3 [example_cover, example_page])
     = (1, B2_F10) # continuation_walk [example_cover, example_page] B2_F10 (1 + 1)" by blast
  then have f: "final_tables [example_cover, example_page]
      (matched_sheets title_search 3 [example_cover, example_page]) = [(1, B2_F10)]"
    unfolding cover_page_walk .
  have g: "load_sheets example_input [[98]] = Some [example_cover]" by (simp add: example_input_def)
  from t1 g c have h: "process_group example_input {} [[98]] None = None" by blast
  show ?thesis by (intro conjI a b c d e f g h)
qed

text \<open>
  C2 as stated fails: in the sequence of a title sheet without any bordered cell followed
  by a title-matching page with a table, the first title-matching sheet has no border
  range, yet consolidation does not fail, and the later title-matching sheet is the one
  consolidated.
\<close>

theorem first_match_without_table_counterexample:
  "hd (matched_sheets title_search 3 [example_cover, example_page]) = 0 \<and>
   find_border_range_in_sheet ([example_cover, example_page] ! 0) = None \<and>
   consolidate_tables_from_group [example_cover, example_page] title_search 3 \<noteq> Inl NoTableFound \<and>
   final_tables [example_cover, example_page] (matched_sheets title_search 3 [example_cover, example_page])
     = [(1, B2_F10)]"
proof -
  have e: "find_border_range_in_sheet ([example_cover, example_page] ! 1) = Some B2_F10"
    by (simp add: page_range)
  have f: "final_tables [example_cover, example_page] [0, 1] = [(1, B2_F10)]"
    unfolding final_tables_first[OF cover_page_first e] cover_page_walk ..
  have a: "hd (matched_sheets title_search 3 [example_cover, example_page]) = 0"
    unfolding cover_page_matched by simp
  have b: "find_border_range_in_sheet ([example_cover, example_page] ! 0) = None"
    by (simp add: cover_range)
  have c: "consolidate_tables_from_group [example_cover, example_page] title_search 3 \<noteq> Inl NoTableFound"
    unfolding consolidate_tables_from_group_def Let_def cover_page_matched f by simp
  have d: "final_tables [example_cover, example_page]
      (matched_sheets title_search 3 [example_cover, example_page]) = [(1, B2_F10)]"
    unfolding cover_page_matched by (rule f)
  show ?thesis by (intro conjI a b c d)
qed

subsection \<open>Continuation pages\<close>






















subsection \<open>The schema of the output table\<close>

lemma distinct_FINAL_COLUMN_ORDER: "distinct FINAL_COLUMN_ORDER"
  by (simp add: FINAL_COLUMN_ORDER_def COLS_TO_FIND_BY_HEADER_def HEADERS_TO_FIND_def DATA_COL_NAMES_def
      SPECIAL_COL_NAME_def EXTENDED_VAR_NAMES_def ADDITIONAL_VAR_NAME_def KEY_YEAR_def KEY_REGION_def
      KEY_SOURCE_def)

lemma index_of_nth: "distinct xs \<Longrightarrow> j < length xs \<Longrightarrow> index_of xs (xs ! j) = Some j"
proof (induction xs arbitrary: j)
  case Nil then show ?case by simp
next
  case (Cons x xs)
  then show ?case by (cases j) auto
qed

lemma reindex_row_same:
  assumes "distinct cols" "length row = length cols"
  shows "reindex_row cols cols row = row"
  using assms by (intro nth_equalityI) (auto simp: reindex_row_def index_of_nth)

lemma concat_frames_empty: "concat_frames empty_frame b =
    \<lparr>df_columns = df_columns b, df_rows = map (reindex_row (df_columns b) (df_columns b)) (df_rows b)\<rparr>"
  by (simp add: concat_frames_def empty_frame_def Let_def)

lemma final_frame_rows_ok:
  "row \<in> set (df_rows (final_frame enriched)) \<Longrightarrow> length row = length FINAL_COLUMN_ORDER"
  by (auto simp: final_frame_def)

lemma map_reindex_same:
  assumes "distinct cols" "\<forall>row \<in> set rs. length row = length cols"
  shows "map (reindex_row cols cols) rs = rs"
  using assms by (induction rs) (auto simp: reindex_row_same)

lemma append_schema:
  assumes "schema_ok out"
  shows "append_data_and_log_to_excel out (final_frame enriched) gid =
     Some \<lparr>panel_data = \<lparr>df_columns = FINAL_COLUMN_ORDER,
                           df_rows = existing_rows out @
                             map (\<lambda>record. map (dict_get record) FINAL_COLUMN_ORDER) enriched\<rparr>,
            processing_log = (case out of None \<Rightarrow> [] | Some f \<Rightarrow> processing_log f) @ [gid]\<rparr>"
proof -
  have new: "map (reindex_row FINAL_COLUMN_ORDER FINAL_COLUMN_ORDER) (df_rows (final_frame enriched))
      = df_rows (final_frame enriched)"
    by (rule map_reindex_same[OF distinct_FINAL_COLUMN_ORDER]) (auto simp: final_frame_def)
  show ?thesis
  proof (cases out)
    case None
    with new show ?thesis
      by (simp add: append_data_and_log_to_excel_def Let_def concat_frames_empty existing_rows_def)
        (simp add: final_frame_def)
  next
    case (Some f)
    with assms have c: "df_columns (panel_data f) = FINAL_COLUMN_ORDER"
      and r: "\<forall>row \<in> set (df_rows (panel_data f)). length row = length FINAL_COLUMN_ORDER"
      by (auto simp: schema_ok_def list_all_iff)
    from r have old: "map (reindex_row FINAL_COLUMN_ORDER FINAL_COLUMN_ORDER) (df_rows (panel_data f))
        = df_rows (panel_data f)"
      by (intro map_reindex_same[OF distinct_FINAL_COLUMN_ORDER])
    have cols: "df_columns (final_frame enriched) = FINAL_COLUMN_ORDER" by (simp add: final_frame_def)
    from Some c old new cols show ?thesis
      by (simp add: append_data_and_log_to_excel_def Let_def concat_frames_def existing_rows_def)
        (simp add: final_frame_def)
  qed
qed

lemma append_schema_ok:
  assumes "schema_ok out"
  shows "schema_ok (append_data_and_log_to_excel out (final_frame enriched) gid)"
proof -
  from assms have "list_all (\<lambda>row. length row = length FINAL_COLUMN_ORDER) (existing_rows out)"
    by (cases out) (auto simp: schema_ok_def existing_rows_def)
  then show ?thesis
    unfolding append_schema[OF assms] by (auto simp: schema_ok_def list_all_iff)
qed

lemma process_group_schema_ok: "schema_ok out \<Longrightarrow> schema_ok (process_group inp P g out)"
  by (simp add: process_group_def Let_def append_schema_ok)

lemma fold_schema_ok: "schema_ok out \<Longrightarrow> schema_ok (fold (process_group inp P) gs out)"
  by (induction gs arbitrary: out) (auto simp: process_group_schema_ok)

lemma main_schema_ok: "schema_ok out \<Longrightarrow> schema_ok (main inp out)"
  unfolding main_def by (rule fold_schema_ok)


lemma base_record_dom:
  assumes "d \<in> set (base_extracted_data sh)"
  shows "dom d \<subseteq> fst ` set COLS_TO_FIND_BY_HEADER \<union> set HEADERS_TO_FIND \<union> set DATA_COL_NAMES
            \<union> {SPECIAL_COL_NAME}"
proof
  fix k assume k: "k \<in> dom d"
  show "k \<in> fst ` set COLS_TO_FIND_BY_HEADER \<union> set HEADERS_TO_FIND \<union> set DATA_COL_NAMES
            \<union> {SPECIAL_COL_NAME}"
  proof (rule ccontr)
    assume "k \<notin> fst ` set COLS_TO_FIND_BY_HEADER \<union> set HEADERS_TO_FIND \<union> set DATA_COL_NAMES
            \<union> {SPECIAL_COL_NAME}"
    then have "k \<notin> fst ` set COLS_TO_FIND_BY_HEADER" "k \<notin> set HEADERS_TO_FIND"
      "k \<notin> set DATA_COL_NAMES" "k \<noteq> SPECIAL_COL_NAME" by auto
    from row_dict_other[OF this] assms have "d k = None"
      by (auto simp: base_extracted_data_def Let_def split: option.splits)
    with k show False by auto
  qed
qed

lemma number_records_dom:
  "d \<in> set (number_records nc base) \<Longrightarrow> \<exists>b \<in> set base. dom d \<subseteq> dom b \<union> {OCCURRENCE_KEY}"
proof (induction base arbitrary: nc)
  case Nil then show ?case by simp
next
  case (Cons b base)
  then show ?case by (auto simp: Let_def split: if_splits)
qed

lemma enrich_record_dom:
  "dom (enrich_record amap sheets meta rec)
     \<subseteq> (dom rec - {OCCURRENCE_KEY}) \<union> (set EXTENDED_VAR_NAMES \<union> {ADDITIONAL_VAR_NAME}) \<union> dom meta"
proof -
  let ?ev = "case record_anchor amap rec of Some loc \<Rightarrow> extract_vars_from_anchor loc sheets
             | None \<Rightarrow> absent_vars"
  have "dom ?ev = set EXTENDED_VAR_NAMES \<union> {ADDITIONAL_VAR_NAME}"
    by (cases "record_anchor amap rec") (simp_all add: absent_vars_dom extract_vars_dom)
  then show ?thesis
    unfolding enrich_record_def Let_def by auto
qed

lemma group_metadata_dom: "dom (group_metadata inp gid) = {KEY_YEAR, KEY_REGION, KEY_SOURCE}"
  by (auto simp: group_metadata_def)

lemma set_FINAL_COLUMN_ORDER:
  "set FINAL_COLUMN_ORDER = fst ` set COLS_TO_FIND_BY_HEADER \<union> set HEADERS_TO_FIND \<union> set DATA_COL_NAMES
     \<union> {SPECIAL_COL_NAME} \<union> set EXTENDED_VAR_NAMES \<union> {ADDITIONAL_VAR_NAME}
     \<union> {KEY_YEAR, KEY_REGION, KEY_SOURCE}"
  unfolding FINAL_COLUMN_ORDER_def by auto

lemma extract_data_dom:
  assumes "d \<in> set (extract_data_with_extended_vars sh sheets last_idx meta)"
    and "dom meta = {KEY_YEAR, KEY_REGION, KEY_SOURCE}"
  shows "dom d \<subseteq> set FINAL_COLUMN_ORDER"
proof -
  from assms(1) obtain rec where rec: "rec \<in> set (number_records Map.empty (base_extracted_data sh))"
    and d: "d = enrich_record (build_anchor_map sheets (last_idx + 1)) sheets meta rec"
    by (auto simp: extract_data_with_extended_vars_def Let_def split: if_splits)
  from number_records_dom[OF rec] obtain b where b: "b \<in> set (base_extracted_data sh)"
    "dom rec \<subseteq> dom b \<union> {OCCURRENCE_KEY}" by blast
  from base_record_dom[OF b(1)] b(2)
  have "dom rec - {OCCURRENCE_KEY} \<subseteq> fst ` set COLS_TO_FIND_BY_HEADER \<union> set HEADERS_TO_FIND
      \<union> set DATA_COL_NAMES \<union> {SPECIAL_COL_NAME}" by blast
  with enrich_record_dom[of "build_anchor_map sheets (last_idx + 1)" sheets meta rec] assms(2)
  show ?thesis unfolding d set_FINAL_COLUMN_ORDER by blast
qed

lemma enriched_group_dom:
  assumes "d \<in> set (enriched_data_of_group inp g)"
  shows "dom d \<subseteq> set FINAL_COLUMN_ORDER"
proof (cases "load_sheets inp g")
  case None
  with assms show ?thesis by (simp add: enriched_data_of_group_def)
next
  case (Some sheets)
  show ?thesis
  proof (cases "consolidate_tables_from_group sheets title_search 3")
    case (Inl e)
    with Some assms show ?thesis by (simp add: enriched_data_of_group_def)
  next
    case (Inr p)
    obtain cons last_idx where p: "p = (cons, last_idx)" by (cases p)
    from assms Some Inr p
    have "d \<in> set (extract_data_with_extended_vars cons sheets last_idx (group_metadata inp (hd g)))"
      by (simp add: enriched_data_of_group_def)
    then show ?thesis by (rule extract_data_dom[OF _ group_metadata_dom])
  qed
qed

text \<open>
  C4: every record committed to the output table has exactly the columns of the fixed
  schema, in the fixed order (header-matched fields, name-block fields, numeric data
  fields, special field, extended fields, additional field, then year, region and
  source). The rows appended for a group hold, for every record, one value per schema
  column in that order, the record's value or the absent marker where the record has no
  such field; the records have no field outside the schema; and a run keeps the whole
  table on the schema.
\<close>

theorem committed_records_full_schema:
  "(schema_ok out \<longrightarrow> schema_ok (main inp out)) \<and>
   (schema_ok out \<longrightarrow>
      (\<exists>f. append_data_and_log_to_excel out (final_frame enriched) gid = Some f \<and>
           df_columns (panel_data f) = FINAL_COLUMN_ORDER \<and>
           df_rows (panel_data f)
             = existing_rows out @ map (\<lambda>record. map (dict_get record) FINAL_COLUMN_ORDER) enriched)) \<and>
   (\<forall>record. record \<in> set (enriched_data_of_group inp g) \<longrightarrow> dom record \<subseteq> set FINAL_COLUMN_ORDER) \<and>
   (\<forall>record j. j < length FINAL_COLUMN_ORDER \<longrightarrow>
      map (dict_get record) FINAL_COLUMN_ORDER ! j
        = (case record (FINAL_COLUMN_ORDER ! j) of None \<Rightarrow> PNone | Some v \<Rightarrow> v)) \<and>
   distinct FINAL_COLUMN_ORDER \<and>
   FINAL_COLUMN_ORDER =
     map fst COLS_TO_FIND_BY_HEADER @ HEADERS_TO_FIND @ DATA_COL_NAMES @ [SPECIAL_COL_NAME] @
     EXTENDED_VAR_NAMES @ [ADDITIONAL_VAR_NAME] @ [KEY_YEAR, KEY_REGION, KEY_SOURCE]"
proof (intro conjI allI impI)
  show "schema_ok (main inp out)" if "schema_ok out" using that by (rule main_schema_ok)
  show "\<exists>f. append_data_and_log_to_excel out (final_frame enriched) gid = Some f \<and>
           df_columns (panel_data f) = FINAL_COLUMN_ORDER \<and>
           df_rows (panel_data f)
             = existing_rows out @ map (\<lambda>record. map (dict_get record) FINAL_COLUMN_ORDER) enriched"
    if "schema_ok out"
    unfolding append_schema[OF that] by simp
  show "dom d \<subseteq> set FINAL_COLUMN_ORDER" if "d \<in> set (enriched_data_of_group inp g)" for d
    using that by (rule enriched_group_dom)
  show "map (dict_get d) FINAL_COLUMN_ORDER ! j
        = (case d (FINAL_COLUMN_ORDER ! j) of None \<Rightarrow> PNone | Some v \<Rightarrow> v)"
    if "j < length FINAL_COLUMN_ORDER" for d j
    using that by (simp add: dict_get_def)
  show "distinct FINAL_COLUMN_ORDER" by (rule distinct_FINAL_COLUMN_ORDER)
  show "FINAL_COLUMN_ORDER =
     map fst COLS_TO_FIND_BY_HEADER @ HEADERS_TO_FIND @ DATA_COL_NAMES @ [SPECIAL_COL_NAME] @
     EXTENDED_VAR_NAMES @ [ADDITIONAL_VAR_NAME] @ [KEY_YEAR, KEY_REGION, KEY_SOURCE]"
    by (rule FINAL_COLUMN_ORDER_def)
qed



theorem committed_records_full_schema_witness:
  "schema_ok None \<and> schema_ok (main example_input None) \<and>
   existing_rows (append_data_and_log_to_excel None
       (final_frame (enriched_data_of_group example_input [[97]])) [97])
     = existing_rows None @
       map (\<lambda>d. map (dict_get d) FINAL_COLUMN_ORDER) (enriched_data_of_group example_input [[97]]) \<and>
   hd (enriched_data_of_group example_input [[97]]) \<in> set (enriched_data_of_group example_input [[97]]) \<and>
   dom (hd (enriched_data_of_group example_input [[97]])) \<subseteq> set FINAL_COLUMN_ORDER \<and>
   0 < length FINAL_COLUMN_ORDER \<and>
   map (dict_get Map.empty) FINAL_COLUMN_ORDER ! 0 = PNone"
proof -
  let ?E = "enriched_data_of_group example_input [[97]]"
  note t = committed_records_full_schema[of None example_input ?E "[97]" "[[97]]"]
  have a: "schema_ok None" by (simp add: schema_ok_def)
  from t a have b: "schema_ok (main example_input None)" by blast
  from t a obtain f where f: "append_data_and_log_to_excel None (final_frame ?E) [97] = Some f"
    "df_rows (panel_data f) = existing_rows None @ map (\<lambda>d. map (dict_get d) FINAL_COLUMN_ORDER) ?E"
    by blast
  then have c: "existing_rows (append_data_and_log_to_excel None (final_frame ?E) [97])
     = existing_rows None @ map (\<lambda>d. map (dict_get d) FINAL_COLUMN_ORDER) ?E"
    by (simp add: existing_rows_def)
  from report_enriched have d: "hd ?E \<in> set ?E" by simp
  from t d have e: "dom (hd ?E) \<subseteq> set FINAL_COLUMN_ORDER" by blast
  have g: "0 < length FINAL_COLUMN_ORDER" by (simp add: FINAL_COLUMN_ORDER_def)
  from t g have "map (dict_get Map.empty) FINAL_COLUMN_ORDER ! 0
      = (case Map.empty (FINAL_COLUMN_ORDER ! 0) of None \<Rightarrow> PNone | Some v \<Rightarrow> v)" by blast
  then have h: "map (dict_get Map.empty) FINAL_COLUMN_ORDER ! 0 = PNone" by simp
  show ?thesis by (intro conjI a b c d e g h)
qed

end
